theory Spec2Isabelle
  imports Complex_Main "HOL-Library.Multiset"
begin

section \<open>The micro-GA engine of micro-ga.c\<close>

text \<open>
  The engine of \<^verbatim>\<open>micro-ga.c\<close> is embedded function by function. The conventions:
  \<^item> A C \<^verbatim>\<open>float\<close> or \<^verbatim>\<open>double\<close> value is the real number it denotes, and every arithmetic
    operation and conversion of the source is the exact operation followed by the
    rounding of its type: to the nearest value with a significand of 24 bits
    (\<^verbatim>\<open>float\<close>) or 53 bits (\<^verbatim>\<open>double\<close>), ties to the even significand. The exponent is
    not bounded: overflow to an infinity, subnormal numbers, the sign of zero and NaN
    inputs are not part of the model. Every operation is rounded to the type C gives
    it (no wider intermediate precision, no fused multiply-add). A conversion from
    \<^verbatim>\<open>float\<close> to \<^verbatim>\<open>double\<close> and a comparison are exact and leave no trace. The one place
    where the code divides by a sum that can be zero (the selection distribution) is
    computed in a type that has the non-finite results of such a division.
  \<^item> \<^verbatim>\<open>unsigned int\<close> and \<^verbatim>\<open>unsigned long\<close> counters are natural numbers; the one subtraction
    that wraps (\<^verbatim>\<open>population_size - 1\<close> at zero) is a branch of its own. The products
    \<^verbatim>\<open>population_size * 2\<close> and \<^verbatim>\<open>replace * 2\<close> are taken not to wrap (fewer than \<open>2^31\<close>
    individuals).
  \<^item> An array is the list of its elements, the list's length being the extent of the
    allocation; a \<^verbatim>\<open>NULL\<close> array is the empty list, and an access outside the extent is
    the error \<open>MemoryFault\<close>.
  \<^item> \<^verbatim>\<open>rand()\<close> is the list of values it is going to return, consumed from the front;
    \<^verbatim>\<open>RAND_MAX\<close> comes from the C library and is a parameter of every function that
    draws. A call that needs more values than the list holds is \<open>OutOfDraws\<close>.
  \<^item> \<^verbatim>\<open>calloc\<close> is a function from the number of the call (counted inside one engine
    operation) to whether it returns memory.
  \<^item> The debug output on stdout is left out; the calls of the objective function and the
    lines written to stderr (without their newline) are recorded in a trace.
\<close>

subsection \<open>Rounding\<close>

text \<open>The integer nearest to \<open>y\<close>, the even one of the two when \<open>y\<close> lies half-way.\<close>

definition round_even :: "real \<Rightarrow> int" where
  "round_even y =
     (if y - of_int \<lfloor>y\<rfloor> < 1 / 2 then \<lfloor>y\<rfloor>
      else if 1 / 2 < y - of_int \<lfloor>y\<rfloor> then \<lfloor>y\<rfloor> + 1
      else if even \<lfloor>y\<rfloor> then \<lfloor>y\<rfloor> else \<lfloor>y\<rfloor> + 1)"

text \<open>
  \<open>fl_round p x\<close> is \<open>x\<close> rounded to a significand of \<open>p\<close> bits: with
  \<open>2^e \<le> \<bar>x\<bar> < 2^(e+1)\<close>, the nearest multiple of \<open>2^(e - p + 1)\<close>.
\<close>

definition fl_round :: "nat \<Rightarrow> real \<Rightarrow> real" where
  "fl_round p x =
     (if x = 0 then 0
      else sgn x * (2 powi (\<lfloor>log 2 \<bar>x\<bar>\<rfloor> - int p + 1)
                    * of_int (round_even (\<bar>x\<bar> / 2 powi (\<lfloor>log 2 \<bar>x\<bar>\<rfloor> - int p + 1)))))"

definition to_float :: "real \<Rightarrow> real" where
  "to_float = fl_round 24"

definition to_double :: "real \<Rightarrow> real" where
  "to_double = fl_round 53"

subsection \<open>Data\<close>

record micro_ga_genome_t =
  genome_size :: nat
  genes :: "real list"
  fitness :: real

text \<open>
  A callback of type \<^verbatim>\<open>void (*)(micro_ga_genome_t*)\<close> is the function from the genome it is
  handed to the genome it leaves behind. The acceptance filter, of type
  \<^verbatim>\<open>unsigned int (*)(micro_ga_genome_t*)\<close>, gets the same writable pointer: it is the
  function from the genome it is handed to the value it returns and the genome it leaves
  behind. \<^verbatim>\<open>NULL\<close> is \<open>None\<close>.
\<close>

record micro_ga_config_t =
  cfg_population_size :: nat
  cfg_genome_size :: nat
  cfg_mutation_rate :: real
  cfg_crossover_rate :: real
  cfg_fitness_thresh :: real
  cfg_fitness_fn :: "(micro_ga_genome_t \<Rightarrow> micro_ga_genome_t) option"
  cfg_acceptance_fn :: "(micro_ga_genome_t \<Rightarrow> nat \<times> micro_ga_genome_t) option"
  cfg_debug :: nat

record micro_ga_t =
  generation :: nat
  population_size :: nat
  mutation_rate :: real
  crossover_rate :: real
  fitness_thresh :: real
  individuals :: "micro_ga_genome_t list"
  ga_genome_size :: nat
  fitness_fn :: "(micro_ga_genome_t \<Rightarrow> micro_ga_genome_t) option"
  acceptance_fn :: "(micro_ga_genome_t \<Rightarrow> nat \<times> micro_ga_genome_t) option"
  ready :: nat
  debug :: nat

datatype error = AssertionFailure | MemoryFault | OutOfDraws | Diverges

datatype event = FitnessCall micro_ga_genome_t | Stderr string

subsection \<open>Random draws\<close>

text \<open>
  \<^verbatim>\<open>rand()/((float)RAND_MAX + 1)\<close>, for the value \<open>r\<close> that \<^verbatim>\<open>rand()\<close> returned: \<^verbatim>\<open>RAND_MAX\<close> is
  converted to \<^verbatim>\<open>float\<close>, the sum is a \<^verbatim>\<open>float\<close> sum, \<open>r\<close> is converted to \<^verbatim>\<open>float\<close> and the
  quotient is a \<^verbatim>\<open>float\<close> quotient.
\<close>

definition uniform_float :: "nat \<Rightarrow> nat \<Rightarrow> real" where
  "uniform_float RAND_MAX r =
     to_float (to_float (real r) / to_float (to_float (real RAND_MAX) + 1))"

text \<open>\<^verbatim>\<open>rand()/((double)RAND_MAX + 1)\<close>, the same in \<^verbatim>\<open>double\<close>.\<close>

definition uniform_double :: "nat \<Rightarrow> nat \<Rightarrow> real" where
  "uniform_double RAND_MAX r =
     to_double (to_double (real r) / to_double (to_double (real RAND_MAX) + 1))"

subsection \<open>crossover\<close>

text \<open>
  The loop of \<^verbatim>\<open>crossover\<close> over the gene positions \<open>n < genome_size\<close>. Both branches
  draw a second value; the child's gene is written after both draws. The variable \<^verbatim>\<open>c\<close>
  and the genes are \<^verbatim>\<open>float\<close>, so the blend \<^verbatim>\<open>c*mother + (1.0f-c)*father\<close> is two \<^verbatim>\<open>float\<close>
  products, a \<^verbatim>\<open>float\<close> difference and a \<^verbatim>\<open>float\<close> sum.
\<close>

fun crossover_loop ::
  "nat \<Rightarrow> real \<Rightarrow> real list \<Rightarrow> real list \<Rightarrow> real list \<Rightarrow> nat \<Rightarrow> nat \<Rightarrow> nat list
    \<Rightarrow> error + (real list \<times> nat list)" where
  "crossover_loop RAND_MAX rate mg fg cg n gsize ds =
     (if n < gsize then
        (case ds of
           u # w # rest \<Rightarrow>
             (if n < length mg \<and> n < length fg \<and> n < length cg then
                crossover_loop RAND_MAX rate mg fg
                  (cg[n := (if uniform_float RAND_MAX u > rate
                            then to_float (to_float (uniform_float RAND_MAX w * mg ! n)
                                           + to_float (to_float (1 - uniform_float RAND_MAX w)
                                                       * fg ! n))
                            else if uniform_float RAND_MAX w > 0.5 then mg ! n else fg ! n)])
                  (Suc n) gsize rest
              else Inl MemoryFault)
         | _ \<Rightarrow> Inl OutOfDraws)
      else Inr (cg, ds))"

declare crossover_loop.simps [simp del]

definition crossover ::
  "nat \<Rightarrow> micro_ga_genome_t \<Rightarrow> micro_ga_genome_t \<Rightarrow> micro_ga_genome_t \<Rightarrow> nat \<Rightarrow> real
    \<Rightarrow> nat list \<Rightarrow> error + (micro_ga_genome_t \<times> nat list)" where
  "crossover RAND_MAX mother father child gsize rate ds =
     (if gsize = 0 then Inl AssertionFailure
      else case crossover_loop RAND_MAX rate (genes mother) (genes father) (genes child) 0 gsize ds of
             Inl e \<Rightarrow> Inl e
           | Inr (cg, ds') \<Rightarrow> Inr (child\<lparr>genes := cg, fitness := -1, genome_size := gsize\<rparr>, ds'))"

subsection \<open>mutate\<close>

text \<open>
  The variable \<^verbatim>\<open>r\<close> of \<^verbatim>\<open>mutate\<close> is a \<^verbatim>\<open>double\<close>; the assignment \<^verbatim>\<open>individual->genes[g] = r\<close>
  converts it to \<^verbatim>\<open>float\<close>.
\<close>

fun mutate_loop ::
  "nat \<Rightarrow> real \<Rightarrow> nat \<Rightarrow> nat \<Rightarrow> real list \<Rightarrow> nat list \<Rightarrow> error + (real list \<times> nat list)" where
  "mutate_loop RAND_MAX rate g gsize gs ds =
     (if g < gsize then
        (case ds of
           [] \<Rightarrow> Inl OutOfDraws
         | r # rest \<Rightarrow>
             (if uniform_double RAND_MAX r < rate then
                (case rest of
                   [] \<Rightarrow> Inl OutOfDraws
                 | r' # rest' \<Rightarrow>
                     (if g < length gs
                      then mutate_loop RAND_MAX rate (Suc g) gsize
                             (gs[g := to_float (uniform_double RAND_MAX r')]) rest'
                      else Inl MemoryFault))
              else mutate_loop RAND_MAX rate (Suc g) gsize gs rest))
      else Inr (gs, ds))"

declare mutate_loop.simps [simp del]

definition mutate ::
  "nat \<Rightarrow> micro_ga_genome_t \<Rightarrow> real \<Rightarrow> nat list \<Rightarrow> error + (micro_ga_genome_t \<times> nat list)" where
  "mutate RAND_MAX individual rate ds =
     (case mutate_loop RAND_MAX rate 0 (genome_size individual) (genes individual) ds of
        Inl e \<Rightarrow> Inl e
      | Inr (gs, ds') \<Rightarrow> Inr (individual\<lparr>genes := gs\<rparr>, ds'))"

subsection \<open>Sorting\<close>

definition genome_compare :: "micro_ga_genome_t \<Rightarrow> micro_ga_genome_t \<Rightarrow> int" where
  "genome_compare genome1 genome2 =
     (if fitness genome1 < fitness genome2 then -1
      else if fitness genome1 > fitness genome2 then 1
      else 0)"

text \<open>
  \<^verbatim>\<open>qsort\<close> of the C library, for a comparison function \<open>cmp\<close>: the standard fixes that the
  result is ordered by \<open>cmp\<close> and holds the same elements, not the algorithm. The model
  is the insertion sort; the theorems below use its result only through
  \<open>qsort_mset\<close> and \<open>qsort_sorted\<close> (the same elements, in ascending order of fitness).
\<close>

fun qsort_insert :: "('a \<Rightarrow> 'a \<Rightarrow> int) \<Rightarrow> 'a \<Rightarrow> 'a list \<Rightarrow> 'a list" where
  "qsort_insert cmp x [] = [x]"
| "qsort_insert cmp x (y # ys) =
     (if cmp x y \<le> 0 then x # y # ys else y # qsort_insert cmp x ys)"

fun qsort :: "('a \<Rightarrow> 'a \<Rightarrow> int) \<Rightarrow> 'a list \<Rightarrow> 'a list" where
  "qsort cmp [] = []"
| "qsort cmp (x # xs) = qsort_insert cmp x (qsort cmp xs)"

text \<open>
  \<^verbatim>\<open>micro_ga_sort\<close> sorts the \<open>population_size\<close> elements of \<open>individuals\<close>; it reads no
  other field of the engine.
\<close>

definition micro_ga_sort :: "micro_ga_t \<Rightarrow> error + micro_ga_t" where
  "micro_ga_sort ga =
     (if population_size ga \<le> length (individuals ga) then
        Inr (ga\<lparr>individuals :=
               qsort genome_compare (take (population_size ga) (individuals ga))
               @ drop (population_size ga) (individuals ga)\<rparr>)
      else Inl MemoryFault)"

subsection \<open>The selection distribution\<close>

text \<open>
  The sum \<^verbatim>\<open>tfitness\<close>, the quotient \<^verbatim>\<open>fitness / tfitness\<close> and the running sum \<^verbatim>\<open>cumulative\<close>
  are doubles, and so is every operation on them. The sum \<^verbatim>\<open>tfitness\<close> can be zero, and a
  double divided by zero is an infinity or NaN, so the quotient and the running sum range
  over \<open>dbl\<close>. (\<^verbatim>\<open>tfitness\<close> starts at \<open>+0.0\<close>, and a sum that is zero is \<open>+0.0\<close>.)
\<close>

datatype dbl = Fin real | PInf | NInf | NaN

definition dbl_div :: "real \<Rightarrow> real \<Rightarrow> dbl" where
  "dbl_div a b =
     (if b \<noteq> 0 then Fin (to_double (a / b))
      else if 0 < a then PInf else if a < 0 then NInf else NaN)"

fun dbl_add :: "dbl \<Rightarrow> dbl \<Rightarrow> dbl" where
  "dbl_add (Fin a) (Fin b) = Fin (to_double (a + b))"
| "dbl_add NaN y = NaN"
| "dbl_add x NaN = NaN"
| "dbl_add PInf NInf = NaN"
| "dbl_add NInf PInf = NaN"
| "dbl_add PInf y = PInf"
| "dbl_add x PInf = PInf"
| "dbl_add NInf y = NInf"
| "dbl_add x NInf = NInf"

text \<open>\<^verbatim>\<open>r <= p\<close> for a finite \<open>r\<close>.\<close>

fun dbl_le :: "real \<Rightarrow> dbl \<Rightarrow> bool" where
  "dbl_le r (Fin p) = (r \<le> p)"
| "dbl_le r PInf = True"
| "dbl_le r NInf = False"
| "dbl_le r NaN = False"

text \<open>
  Lines 145--147: \<^verbatim>\<open>tfitness\<close> starts at 0, and each slot, in slot order, adds its fitness
  in a \<^verbatim>\<open>double\<close> sum.
\<close>

definition total_fitness :: "micro_ga_genome_t list \<Rightarrow> real" where
  "total_fitness inds = foldl (\<lambda>t g. to_double (t + fitness g)) 0 inds"

text \<open>Lines 152--156: \<open>cumulative_prob tfitness cumulative inds\<close> is the array \<^verbatim>\<open>prob\<close>.\<close>

fun cumulative_prob :: "real \<Rightarrow> dbl \<Rightarrow> micro_ga_genome_t list \<Rightarrow> dbl list" where
  "cumulative_prob tfitness cumulative [] = []"
| "cumulative_prob tfitness cumulative (g # gs) =
     dbl_add cumulative (dbl_div (fitness g) tfitness)
     # cumulative_prob tfitness (dbl_add cumulative (dbl_div (fitness g) tfitness)) gs"

subsection \<open>Roulette-wheel selection\<close>

text \<open>The scan for the first \<open>x\<close> with \<^verbatim>\<open>r <= prob[x]\<close>; \<open>None\<close> when the loop ends without a \<^verbatim>\<open>break\<close>.\<close>

fun roulette :: "dbl list \<Rightarrow> nat \<Rightarrow> real \<Rightarrow> nat option" where
  "roulette [] x r = None"
| "roulette (p # ps) x r = (if dbl_le r p then Some x else roulette ps (Suc x) r)"

text \<open>
  Lines 164--191. A scan that finds no index leaves the entry of \<^verbatim>\<open>parents\<close> as it was.
  The counters advance only when the two entries differ, so the loop has no bound of
  its own; every round consumes two draws.
\<close>

fun select_parents ::
  "nat \<Rightarrow> dbl list \<Rightarrow> nat \<Rightarrow> nat \<Rightarrow> nat \<Rightarrow> nat list \<Rightarrow> nat list \<Rightarrow> error + (nat list \<times> nat list)" where
  "select_parents RAND_MAX prob replace n pcount parents ds =
     (if n < replace then
        (case ds of
           d1 # d2 # rest \<Rightarrow>
             (if Suc pcount < length parents then
                (let parents1 = (case roulette prob 0 (uniform_double RAND_MAX d1) of
                                   Some x \<Rightarrow> parents[pcount := x] | None \<Rightarrow> parents);
                     parents2 = (case roulette prob 0 (uniform_double RAND_MAX d2) of
                                   Some x \<Rightarrow> parents1[Suc pcount := x] | None \<Rightarrow> parents1)
                 in if parents2 ! pcount \<noteq> parents2 ! Suc pcount
                    then select_parents RAND_MAX prob replace (Suc n) (pcount + 2) parents2 rest
                    else select_parents RAND_MAX prob replace n pcount parents2 rest)
              else Inl MemoryFault)
         | _ \<Rightarrow> Inl OutOfDraws)
      else Inr (parents, ds))"

declare select_parents.simps [simp del]

subsection \<open>Breeding, mutation and replacement\<close>

text \<open>Lines 207--235, with the two counters \<open>n\<close> and \<open>nchildren\<close> of the source.\<close>

function breed ::
  "nat \<Rightarrow> micro_ga_genome_t list \<Rightarrow> nat list \<Rightarrow> nat \<Rightarrow> real \<Rightarrow> nat \<Rightarrow> nat \<Rightarrow> nat
    \<Rightarrow> micro_ga_genome_t list \<Rightarrow> nat list \<Rightarrow> error + (micro_ga_genome_t list \<times> nat list)" where
  "breed RAND_MAX inds parents gsize rate n nchildren replace children ds =
     (if n < replace * 2 then
        (if n + 1 < length parents \<and> parents ! n < length inds \<and> parents ! (n + 1) < length inds
            \<and> nchildren < length children then
           (case crossover RAND_MAX (inds ! (parents ! n)) (inds ! (parents ! (n + 1)))
                   (children ! nchildren) gsize rate ds of
              Inl e \<Rightarrow> Inl e
            | Inr (child, ds') \<Rightarrow>
                breed RAND_MAX inds parents gsize rate (n + 2) (Suc nchildren) replace
                  (children[nchildren := child]) ds')
         else Inl MemoryFault)
      else Inr (children, ds))"
  by pat_completeness auto
termination
  by (relation "measure (\<lambda>(RAND_MAX, inds, parents, gsize, rate, n, nchildren, replace, children, ds).
                  replace * 2 - n)") auto

declare breed.simps [simp del]

text \<open>Lines 238--240.\<close>

function mutate_children ::
  "nat \<Rightarrow> real \<Rightarrow> nat \<Rightarrow> nat \<Rightarrow> micro_ga_genome_t list \<Rightarrow> nat list
    \<Rightarrow> error + (micro_ga_genome_t list \<times> nat list)" where
  "mutate_children RAND_MAX rate n replace children ds =
     (if n < replace then
        (if n < length children then
           (case mutate RAND_MAX (children ! n) rate ds of
              Inl e \<Rightarrow> Inl e
            | Inr (child, ds') \<Rightarrow>
                mutate_children RAND_MAX rate (Suc n) replace (children[n := child]) ds')
         else Inl MemoryFault)
      else Inr (children, ds))"
  by pat_completeness auto
termination
  by (relation "measure (\<lambda>(RAND_MAX, rate, n, replace, children, ds). replace - n)") auto

declare mutate_children.simps [simp del]

text \<open>
  Lines 245--257. \<^verbatim>\<open>memcpy\<close> overwrites the first \<open>genome_size\<close> floats of the individual's
  gene buffer with those of the child's buffer.
\<close>

function replace_individuals ::
  "nat \<Rightarrow> nat \<Rightarrow> micro_ga_genome_t list \<Rightarrow> micro_ga_genome_t list
    \<Rightarrow> error + micro_ga_genome_t list" where
  "replace_individuals n replace children inds =
     (if n < replace then
        (if n < length inds \<and> n < length children
            \<and> genome_size (children ! n) \<le> length (genes (inds ! n))
            \<and> genome_size (children ! n) \<le> length (genes (children ! n)) then
           replace_individuals (Suc n) replace children
             (inds[n := (inds ! n)\<lparr>genome_size := genome_size (children ! n),
                                   genes := take (genome_size (children ! n)) (genes (children ! n))
                                            @ drop (genome_size (children ! n)) (genes (inds ! n)),
                                   fitness := -1\<rparr>])
         else Inl MemoryFault)
      else Inr inds)"
  by pat_completeness auto
termination
  by (relation "measure (\<lambda>(n, replace, children, inds). replace - n)") auto

declare replace_individuals.simps [simp del]

subsection \<open>micro_ga_evolve\<close>

text \<open>Lines 107--109: one call of the objective function per slot, in slot order.\<close>

fun evaluate ::
  "(micro_ga_genome_t \<Rightarrow> micro_ga_genome_t) \<Rightarrow> micro_ga_genome_t list
    \<Rightarrow> micro_ga_genome_t list \<times> event list" where
  "evaluate f [] = ([], [])"
| "evaluate f (g # gs) = (f g # fst (evaluate f gs), FitnessCall g # snd (evaluate f gs))"

text \<open>
  Lines 121--124: the array \<^verbatim>\<open>children\<close> of zeroed structs, each with a zeroed gene buffer.
  The calls of \<^verbatim>\<open>calloc\<close> are numbered 0 (\<^verbatim>\<open>prob\<close>), 1 (\<^verbatim>\<open>parents\<close>), 2 (\<^verbatim>\<open>children\<close>) and
  \<open>3 + n\<close> (\<^verbatim>\<open>children[n].genes\<close>).
\<close>

definition calloc_children :: "(nat \<Rightarrow> bool) \<Rightarrow> nat \<Rightarrow> nat \<Rightarrow> micro_ga_genome_t list" where
  "calloc_children alloc pop gsize =
     map (\<lambda>n. \<lparr>genome_size = 0,
               genes = (if alloc (3 + n) then replicate gsize 0 else []),
               fitness = 0\<rparr>) [0..<pop]"

text \<open>
  The result is the trace of the call and either the error that ended it or the engine
  and the draws left. The steps, with the lines of the source:
  \<^item> 101, 104: the two assertions;
  \<^item> 107--109: the objective function on the slots \<open>n < population_size\<close> (past the end
    of the array when it is shorter);
  \<^item> 115--124: the scratch buffers; line 123 writes through \<^verbatim>\<open>children\<close> before the
    \<^verbatim>\<open>NULL\<close> test;
  \<^item> 126--130: the message on stderr; the step goes on (\<^verbatim>\<open>abort\<close> is commented out);
  \<^item> 135: \<^verbatim>\<open>qsort\<close>; 145--156: \<^verbatim>\<open>tfitness\<close> and \<^verbatim>\<open>prob\<close>, written through \<^verbatim>\<open>prob\<close>;
  \<^item> 158: \<^verbatim>\<open>replace = population_size - 1\<close>, which wraps to \<^verbatim>\<open>UINT_MAX\<close> at zero: the
    selection loop then reads \<^verbatim>\<open>parents[0]\<close> of a buffer of no elements;
  \<^item> 164--257: selection, breeding, mutation, replacement.
\<close>

definition micro_ga_evolve ::
  "nat \<Rightarrow> (nat \<Rightarrow> bool) \<Rightarrow> micro_ga_t \<Rightarrow> nat list
    \<Rightarrow> event list \<times> (error + micro_ga_t \<times> nat list)" where
  "micro_ga_evolve RAND_MAX alloc ga ds =
     (if ready ga \<noteq> 1 then ([], Inl AssertionFailure)
      else case fitness_fn ga of
        None \<Rightarrow> ([], Inl AssertionFailure)
      | Some f \<Rightarrow>
         (let pop = population_size ga;
              calls = snd (evaluate f (take pop (individuals ga)));
              inds1 = fst (evaluate f (take pop (individuals ga)))
          in if length (individuals ga) < pop then (calls, Inl MemoryFault)
             else if 0 < pop \<and> \<not> alloc 2 then (calls, Inl MemoryFault)
             else
              (let children = calloc_children alloc pop (ga_genome_size ga);
                   tr = calls @ (if \<not> alloc 0 \<or> \<not> alloc 1 \<or> \<not> alloc 2
                                 then [Stderr ''Could not allocate memory''] else []);
                   inds2 = qsort genome_compare inds1;
                   tfitness = total_fitness inds2
               in if 0 < pop \<and> \<not> alloc 0 then (tr, Inl MemoryFault)
                  else if pop = 0 then (tr, Inl MemoryFault)
                  else
                   (let prob = cumulative_prob tfitness (Fin 0) inds2;
                        replace = pop - 1;
                        parents = (if alloc 1 then replicate (pop * 2) 0 else [])
                    in (tr,
                        case select_parents RAND_MAX prob replace 0 0 parents ds of
                          Inl e \<Rightarrow> Inl e
                        | Inr (parents', ds1) \<Rightarrow>
                        (case breed RAND_MAX inds2 parents' (ga_genome_size ga) (crossover_rate ga)
                                0 0 replace children ds1 of
                          Inl e \<Rightarrow> Inl e
                        | Inr (children1, ds2) \<Rightarrow>
                        (case mutate_children RAND_MAX (mutation_rate ga) 0 replace children1 ds2 of
                          Inl e \<Rightarrow> Inl e
                        | Inr (children2, ds3) \<Rightarrow>
                        (case replace_individuals 0 replace children2 inds2 of
                          Inl e \<Rightarrow> Inl e
                        | Inr inds3 \<Rightarrow>
                            Inr (ga\<lparr>individuals := inds3 @ drop pop (individuals ga)\<rparr>, ds3)))))))))"

subsection \<open>micro_ga_init\<close>

text \<open>
  Lines 359--363: the genes of one individual, each the \<^verbatim>\<open>float\<close> quotient
  \<^verbatim>\<open>rand()/((float)RAND_MAX + 1)\<close>.
\<close>

fun seed_genes ::
  "nat \<Rightarrow> nat \<Rightarrow> nat \<Rightarrow> real list \<Rightarrow> nat list \<Rightarrow> error + (real list \<times> nat list)" where
  "seed_genes RAND_MAX g gsize gs ds =
     (if g < gsize then
        (case ds of
           [] \<Rightarrow> Inl OutOfDraws
         | r # rest \<Rightarrow>
             (if g < length gs
              then seed_genes RAND_MAX (Suc g) gsize (gs[g := uniform_float RAND_MAX r]) rest
              else Inl MemoryFault))
      else Inr (gs, ds))"

declare seed_genes.simps [simp del]

text \<open>
  \<^verbatim>\<open>population_init\<close>. The inner loop writes the genes into the slot, the filter is called
  on the slot and may write to it, and a rejected candidate decrements \<open>n\<close>, so the
  slot is drawn again, with the size the filter left in it. A filter that rejects for
  ever keeps the loop running: while there are genes to draw, until the draws run out;
  with no gene to draw, without end. The result is \<open>None\<close> when the loop does not return.
\<close>

partial_function (option) population_init_loop ::
  "nat \<Rightarrow> (micro_ga_genome_t \<Rightarrow> nat \<times> micro_ga_genome_t) option \<Rightarrow> nat \<Rightarrow> nat
    \<Rightarrow> micro_ga_genome_t list \<Rightarrow> nat list
    \<Rightarrow> (error + (micro_ga_genome_t list \<times> nat list)) option" where
  "population_init_loop RAND_MAX accept n pop inds ds =
     (if n < pop then
        (if n < length inds then
           (case seed_genes RAND_MAX 0 (genome_size (inds ! n)) (genes (inds ! n)) ds of
              Inl e \<Rightarrow> Some (Inl e)
            | Inr (gs, ds') \<Rightarrow>
                (case accept of
                   None \<Rightarrow>
                     population_init_loop RAND_MAX accept (Suc n) pop
                       (inds[n := (inds ! n)\<lparr>genes := gs\<rparr>]) ds'
                 | Some a \<Rightarrow>
                     (if fst (a ((inds ! n)\<lparr>genes := gs\<rparr>)) = 0 then
                        population_init_loop RAND_MAX accept n pop
                          (inds[n := snd (a ((inds ! n)\<lparr>genes := gs\<rparr>))]) ds'
                      else
                        population_init_loop RAND_MAX accept (Suc n) pop
                          (inds[n := snd (a ((inds ! n)\<lparr>genes := gs\<rparr>))]) ds')))
         else Some (Inl MemoryFault))
      else Some (Inr (inds, ds)))"

text \<open>A loop that does not return is the error \<open>Diverges\<close> of the functions that call it.\<close>

definition population_init :: "nat \<Rightarrow> micro_ga_t \<Rightarrow> nat list \<Rightarrow> error + (micro_ga_t \<times> nat list)" where
  "population_init RAND_MAX ga ds =
     (case population_init_loop RAND_MAX (acceptance_fn ga) 0 (population_size ga) (individuals ga) ds of
        None \<Rightarrow> Inl Diverges
      | Some (Inl e) \<Rightarrow> Inl e
      | Some (Inr (inds, ds')) \<Rightarrow> Inr (ga\<lparr>individuals := inds\<rparr>, ds'))"

text \<open>
  \<^verbatim>\<open>micro_ga_init\<close>. The two pointers are options; the result is the return value, what
  \<^verbatim>\<open>*ga\<close> holds afterwards, and the draws left. The calls of \<^verbatim>\<open>calloc\<close> are numbered 0
  (\<^verbatim>\<open>individuals\<close>) and \<open>1 + n\<close> (\<^verbatim>\<open>individuals[n].genes\<close>, whose result the source does not
  test). \<^verbatim>\<open>memset\<close> zeroes every field that the copy from the configuration does not set.
\<close>

definition micro_ga_init ::
  "nat \<Rightarrow> (nat \<Rightarrow> bool) \<Rightarrow> micro_ga_t option \<Rightarrow> micro_ga_config_t option \<Rightarrow> nat list
    \<Rightarrow> error + (int \<times> micro_ga_t option \<times> nat list)" where
  "micro_ga_init RAND_MAX alloc ga config ds =
     (case ga of
        None \<Rightarrow> Inr (-1, ga, ds)
      | Some old \<Rightarrow>
        (case config of
           None \<Rightarrow> Inr (-1, ga, ds)
         | Some c \<Rightarrow>
            (if cfg_population_size c = 0 \<or> cfg_genome_size c = 0 \<or> cfg_fitness_fn c = None
                \<or> cfg_mutation_rate c < 0 \<or> cfg_crossover_rate c < 0 \<or> cfg_fitness_thresh c < 0
             then Inr (-2, ga, ds)
             else
              (let ga0 = \<lparr>generation = 0,
                          population_size = cfg_population_size c,
                          mutation_rate = cfg_mutation_rate c,
                          crossover_rate = cfg_crossover_rate c,
                          fitness_thresh = cfg_fitness_thresh c,
                          individuals = [],
                          ga_genome_size = cfg_genome_size c,
                          fitness_fn = cfg_fitness_fn c,
                          acceptance_fn = cfg_acceptance_fn c,
                          ready = 0,
                          debug = 0\<rparr>
               in if \<not> alloc 0 then Inr (-1, Some ga0, ds)
                  else
                   (case population_init RAND_MAX
                           (ga0\<lparr>individuals :=
                                  map (\<lambda>n. \<lparr>genome_size = ga_genome_size ga0,
                                            genes = (if alloc (1 + n)
                                                     then replicate (ga_genome_size ga0) 0 else []),
                                            fitness = -1\<rparr>)
                                      [0..<population_size ga0]\<rparr>) ds of
                      Inl e \<Rightarrow> Inl e
                    | Inr (ga1, ds') \<Rightarrow> Inr (0, Some (ga1\<lparr>ready := 1\<rparr>), ds'))))))"

section \<open>Properties of the rounding\<close>

subsection \<open>Rounding to the nearest integer\<close>

lemma round_even_of_int [simp]: "round_even (of_int n) = n"
  by (simp add: round_even_def)

lemma round_even_near: "\<bar>of_int (round_even y) - y\<bar> \<le> 1 / 2"
proof -
  have "of_int \<lfloor>y\<rfloor> \<le> y" "y < of_int \<lfloor>y\<rfloor> + 1" by linarith+
  then show ?thesis by (auto simp: round_even_def abs_le_iff)
qed

lemma round_even_range: "\<lfloor>y\<rfloor> \<le> round_even y \<and> round_even y \<le> \<lfloor>y\<rfloor> + 1"
  by (simp add: round_even_def)

lemma round_even_mono: "y \<le> z \<Longrightarrow> round_even y \<le> round_even z"
proof -
  assume yz: "y \<le> z"
  then have fl: "\<lfloor>y\<rfloor> \<le> \<lfloor>z\<rfloor>" by (rule floor_mono)
  show ?thesis
  proof (cases "\<lfloor>y\<rfloor> = \<lfloor>z\<rfloor>")
    case True
    then show ?thesis using yz by (auto simp: round_even_def)
  next
    case False
    then have "\<lfloor>y\<rfloor> + 1 \<le> \<lfloor>z\<rfloor>" using fl by simp
    then show ?thesis using round_even_range[of y] round_even_range[of z] by linarith
  qed
qed

subsection \<open>Rounding to a significand of \<open>p\<close> bits\<close>

lemma floor_log2_eq:
  assumes "0 < x" "2 powi e \<le> x" "x < 2 powi (e + 1)"
  shows "\<lfloor>log 2 x\<rfloor> = e"
proof -
  have "(2::real) powr real_of_int e \<le> x" "x < (2::real) powr (real_of_int e + 1)"
    using assms powr_real_of_int'[of "2::real" e] powr_real_of_int'[of "2::real" "e + 1"]
    by (simp_all add: add.commute)
  then show ?thesis using assms(1) by (simp add: floor_log_eq_powr_iff)
qed

lemma binade_exists:
  assumes "0 < (x::real)"
  shows "2 powi \<lfloor>log 2 x\<rfloor> \<le> x \<and> x < 2 powi (\<lfloor>log 2 x\<rfloor> + 1)"
proof -
  have "(2::real) powr real_of_int \<lfloor>log 2 x\<rfloor> \<le> x \<and> x < 2 powr (real_of_int \<lfloor>log 2 x\<rfloor> + 1)"
    using floor_log_eq_powr_iff[of x 2 "\<lfloor>log 2 x\<rfloor>"] assms by simp
  then show ?thesis
    using powr_real_of_int'[of "2::real" "\<lfloor>log 2 x\<rfloor>"] powr_real_of_int'[of "2::real" "\<lfloor>log 2 x\<rfloor> + 1"]
    by (simp add: add.commute)
qed

lemma fl_round_pos:
  assumes "0 < x" "2 powi e \<le> x" "x < 2 powi (e + 1)"
  shows "fl_round p x = 2 powi (e - int p + 1) * of_int (round_even (x / 2 powi (e - int p + 1)))"
  using assms floor_log2_eq[OF assms] by (simp add: fl_round_def)


lemma fl_round_0 [simp]: "fl_round p 0 = 0"
  by (simp add: fl_round_def)

text \<open>Evaluation at a positive value, with the number of binary places given.\<close>

lemma fl_round_places:
  assumes "0 < p" "0 < x" "2 ^ (p - 1) \<le> x * 2 ^ k" "x * 2 ^ k < 2 ^ p"
  shows "fl_round p x = of_int (round_even (x * 2 ^ k)) / 2 ^ k"
proof -
  let ?e = "int p - 1 - int k"
  have pk: "(2::real) powi (- int k) = 1 / 2 ^ k"
    by (simp add: power_int_minus inverse_eq_divide)
  obtain q where q: "p = Suc q" using assms(1) by (cases p) auto
  have e1: "(2::real) powi ?e = 2 ^ (p - 1) / 2 ^ k"
    by (simp add: q power_int_diff)
  have e2: "(2::real) powi (?e + 1) = 2 ^ p / 2 ^ k"
    by (simp add: power_int_diff)
  have "2 powi ?e \<le> x" "x < 2 powi (?e + 1)"
    unfolding e1 e2 using assms(3,4) by (simp_all add: field_simps)
  from fl_round_pos[OF assms(2) this, of p]
  have "fl_round p x = 2 powi (- int k) * of_int (round_even (x / 2 powi (- int k)))"
    by (simp add: algebra_simps)
  then show ?thesis by (simp add: pk)
qed



lemma fl_round_nonneg: "0 \<le> x \<Longrightarrow> 0 \<le> fl_round p x"
proof -
  assume "0 \<le> x"
  have "0 \<le> round_even (\<bar>x\<bar> / 2 powi (\<lfloor>log 2 \<bar>x\<bar>\<rfloor> - int p + 1))"
    using round_even_mono[of 0 "\<bar>x\<bar> / 2 powi (\<lfloor>log 2 \<bar>x\<bar>\<rfloor> - int p + 1)"]
      round_even_of_int[of 0] by simp
  then show ?thesis using \<open>0 \<le> x\<close> by (simp add: fl_round_def sgn_if)
qed

text \<open>Within its binade a positive value is rounded to a multiple of the unit in the last place.\<close>

lemma fl_round_binade:
  assumes p: "0 < p" and x: "2 powi e \<le> x" "x < 2 powi (e + 1)"
  shows "\<exists>n. fl_round p x = of_int n * 2 powi (e - int p + 1) \<and> 2 ^ (p - 1) \<le> n \<and> n \<le> 2 ^ p
           \<and> \<bar>of_int n - x / 2 powi (e - int p + 1)\<bar> \<le> 1 / 2"
proof -
  let ?u = "(2::real) powi (e - int p + 1)"
  let ?n = "round_even (x / ?u)"
  have pos: "0 < x" using x(1) zero_less_power_int[of "2::real" e] by linarith
  obtain q where q: "p = Suc q" using p by (cases p) auto
  have u1: "2 powi e = ?u * 2 ^ (p - 1)"
    by (simp add: q power_int_diff power_int_add field_simps)
  have u2: "2 powi (e + 1) = ?u * 2 ^ p"
    by (simp add: q power_int_diff power_int_add field_simps)
  have lo: "(2::real) ^ (p - 1) \<le> x / ?u" using x(1) unfolding u1 by (simp add: field_simps)
  have hi: "x / ?u \<le> 2 ^ p" using x(2) unfolding u2 by (simp add: field_simps)
  have "round_even (of_int (2 ^ (p - 1))) \<le> ?n"
    by (rule round_even_mono) (use lo in simp)
  then have a: "2 ^ (p - 1) \<le> ?n" by (simp only: round_even_of_int)
  have "?n \<le> round_even (of_int (2 ^ p))"
    by (rule round_even_mono) (use hi in simp)
  then have b: "?n \<le> 2 ^ p" by (simp only: round_even_of_int)
  have "fl_round p x = of_int ?n * ?u"
    using fl_round_pos[OF pos x, of p] by (simp add: mult.commute)
  then show ?thesis using a b round_even_near[of "x / ?u"] by blast
qed

lemma fl_round_in_binade:
  assumes p: "0 < p" and x: "2 powi e \<le> x" "x < 2 powi (e + 1)"
  shows "2 powi e \<le> fl_round p x \<and> fl_round p x \<le> 2 powi (e + 1)"
proof -
  let ?u = "(2::real) powi (e - int p + 1)"
  obtain n where n: "fl_round p x = of_int n * ?u" "2 ^ (p - 1) \<le> n" "n \<le> 2 ^ p"
    using fl_round_binade[OF assms] by blast
  obtain q where q: "p = Suc q" using p by (cases p) auto
  have u1: "2 powi e = ?u * 2 ^ (p - 1)"
    by (simp add: q power_int_diff power_int_add field_simps)
  have u2: "2 powi (e + 1) = ?u * 2 ^ p"
    by (simp add: q power_int_diff power_int_add field_simps)
  have "(2::real) ^ (p - 1) \<le> of_int n" using n(2) by (metis of_int_le_iff of_int_numeral of_int_power)
  moreover have "of_int n \<le> (2::real) ^ p" using n(3) by (metis of_int_le_iff of_int_numeral of_int_power)
  ultimately show ?thesis unfolding u1 u2 n(1) by (simp add: mult.commute)
qed

lemma fl_round_mono:
  assumes p: "0 < p" and xy: "0 \<le> x" "x \<le> y"
  shows "fl_round p x \<le> fl_round p y"
proof (cases "x = 0")
  case True
  then show ?thesis using fl_round_nonneg[of y p] xy by simp
next
  case False
  then have px: "0 < x" and py: "0 < y" using xy by simp_all
  let ?ex = "\<lfloor>log 2 x\<rfloor>" and ?ey = "\<lfloor>log 2 y\<rfloor>"
  note bx = binade_exists[OF px] and bny = binade_exists[OF py]
  have le: "?ex \<le> ?ey" using px py xy by (intro floor_mono) simp
  show ?thesis
  proof (cases "?ex = ?ey")
    case True
    let ?u = "(2::real) powi (?ey - int p + 1)"
    have "round_even (x / ?u) \<le> round_even (y / ?u)"
      by (rule round_even_mono) (use xy in \<open>simp add: divide_right_mono\<close>)
    then have "?u * of_int (round_even (x / ?u)) \<le> ?u * of_int (round_even (y / ?u))"
      by (intro mult_left_mono) simp_all
    then show ?thesis
      using fl_round_pos[OF px, of ?ex p] fl_round_pos[OF py, of ?ey p] bx bny True by simp
  next
    case False
    then have "?ex + 1 \<le> ?ey" using le by simp
    then have "(2::real) powi (?ex + 1) \<le> 2 powi ?ey" by (intro power_int_increasing) simp_all
    moreover have "fl_round p x \<le> 2 powi (?ex + 1)"
      using fl_round_in_binade[OF p, of ?ex x] bx by simp
    moreover have "2 powi ?ey \<le> fl_round p y"
      using fl_round_in_binade[OF p, of ?ey y] bny by simp
    ultimately show ?thesis by linarith
  qed
qed




text \<open>A value with a significand of fewer than \<open>p\<close> bits is not changed.\<close>

lemma fl_round_fixed_pos:
  assumes p: "0 < p" and m: "0 < m" "m < 2 ^ p"
  shows "fl_round p (of_int m * 2 powi k) = of_int m * 2 powi k"
proof -
  define x :: real where "x = of_int m * 2 powi k"
  define e where "e = \<lfloor>log 2 x\<rfloor>"
  define u :: real where "u = 2 powi (e - int p + 1)"
  have x: "0 < x" using m(1) by (simp add: x_def)
  have u: "0 < u" by (simp add: u_def)
  have b: "2 powi e \<le> x" "x < 2 powi (e + 1)"
    using binade_exists[OF x] by (simp_all add: e_def)
  have "(of_int m :: real) < 2 ^ p" using m(2) by (metis of_int_less_iff of_int_numeral of_int_power)
  then have "x < 2 ^ p * 2 powi k" unfolding x_def by (intro mult_strict_right_mono) simp_all
  also have "\<dots> = 2 powi (int p + k)" by (simp add: power_int_add)
  finally have "(2::real) powi e < 2 powi (int p + k)" using b by linarith
  then have "e < int p + k"
    using power_int_increasing[of "int p + k" e "2::real"] by (cases "e < int p + k") simp_all
  then obtain j where j: "int j = int p + k - 1 - e"
    by (metis zero_le add_le_imp_le_diff diff_ge_0_iff_ge nonneg_int_cases zless_imp_add1_zle)
  have "k = (e - int p + 1) + int j" using j by simp
  then have "(2::real) powi k = u * 2 ^ j"
    unfolding u_def by (metis power_int_add power_int_of_nat zero_neq_numeral)
  then have xu: "x = u * of_int (m * 2 ^ j)" by (simp add: x_def)
  then have q: "x / u = of_int (m * 2 ^ j)" using u by simp
  have "fl_round p x = u * of_int (round_even (x / u))"
    using fl_round_pos[OF x, of e p] b by (simp add: u_def)
  also have "\<dots> = u * of_int (m * 2 ^ j)"
    by (simp only: q round_even_of_int)
  also have "\<dots> = x" using xu by simp
  finally show ?thesis by (simp add: x_def)
qed


lemma fl_round_nat:
  assumes "0 < p" "n < 2 ^ p"
  shows "fl_round p (real n) = real n"
proof (cases "n = 0")
  case True
  then show ?thesis by simp
next
  case False
  then have "0 < int n" "int n < 2 ^ p" using assms(2) by (simp_all add: of_nat_less_numeral_power_cancel_iff)
  from fl_round_fixed_pos[OF assms(1) this, of 0] show ?thesis by simp
qed

lemma fl_round_1 [simp]: "0 < p \<Longrightarrow> fl_round p 1 = 1"
  using fl_round_nat[of p 1] one_less_power[of "2::nat" p] by simp

subsection \<open>The two types of the source\<close>

lemma to_float_0 [simp]: "to_float 0 = 0"
  by (simp add: to_float_def)

lemma to_float_1 [simp]: "to_float 1 = 1"
  by (simp add: to_float_def)

lemma to_double_0 [simp]: "to_double 0 = 0"
  by (simp add: to_double_def)

lemma to_double_1 [simp]: "to_double 1 = 1"
  by (simp add: to_double_def)

lemma to_float_nonneg: "0 \<le> x \<Longrightarrow> 0 \<le> to_float x"
  by (simp add: to_float_def fl_round_nonneg)

lemma to_double_nonneg: "0 \<le> x \<Longrightarrow> 0 \<le> to_double x"
  by (simp add: to_double_def fl_round_nonneg)

lemma to_float_mono: "0 \<le> x \<Longrightarrow> x \<le> y \<Longrightarrow> to_float x \<le> to_float y"
  by (simp add: to_float_def fl_round_mono)

lemma to_double_mono: "0 \<le> x \<Longrightarrow> x \<le> y \<Longrightarrow> to_double x \<le> to_double y"
  by (simp add: to_double_def fl_round_mono)




text \<open>Values with a short significand are values of the type.\<close>

lemma to_float_dyadic:
  "0 < m \<Longrightarrow> m < 2 ^ 24 \<Longrightarrow> to_float (of_int m / 2 ^ k) = of_int m / 2 ^ k"
  using fl_round_fixed_pos[of 24 m "- int k"]
  by (simp add: to_float_def power_int_minus divide_inverse)

lemma to_double_dyadic:
  "0 < m \<Longrightarrow> m < 2 ^ 53 \<Longrightarrow> to_double (of_int m / 2 ^ k) = of_int m / 2 ^ k"
  using fl_round_fixed_pos[of 53 m "- int k"]
  by (simp add: to_double_def power_int_minus divide_inverse)

lemma to_float_nat: "n < 2 ^ 24 \<Longrightarrow> to_float (real n) = real n"
  by (simp add: to_float_def fl_round_nat)

lemma to_double_nat: "n < 2 ^ 53 \<Longrightarrow> to_double (real n) = real n"
  by (simp add: to_double_def fl_round_nat)

lemma to_float_power2: "to_float (2 ^ k) = 2 ^ k"
  using fl_round_fixed_pos[of 24 1 "int k"] by (simp add: to_float_def)

lemma to_double_power2: "to_double (2 ^ k) = 2 ^ k"
  using fl_round_fixed_pos[of 53 1 "int k"] by (simp add: to_double_def)

subsection \<open>Draws\<close>


lemma uniform_double_nonneg: "0 \<le> uniform_double RAND_MAX r"
proof -
  have "0 \<le> to_double (to_double (real RAND_MAX) + 1)"
    by (intro to_double_nonneg add_nonneg_nonneg) simp_all
  then show ?thesis
    by (simp add: uniform_double_def to_double_nonneg)
qed

text \<open>
  With \<^verbatim>\<open>RAND_MAX\<close> below \<open>2^53\<close> (it is an \<^verbatim>\<open>int\<close>), the conversions and the sum of the
  \<^verbatim>\<open>double\<close> quotient are exact, and the quotient stays below 1.
\<close>

lemma uniform_double_exact:
  assumes "RAND_MAX < 2 ^ 53" "r \<le> RAND_MAX"
  shows "uniform_double RAND_MAX r = to_double (real r / (real RAND_MAX + 1))"
proof -
  have "r < 2 ^ 53" using assms by simp
  then have r: "to_double (real r) = real r" by (rule to_double_nat)
  have m: "to_double (real RAND_MAX) = real RAND_MAX" using assms(1) by (rule to_double_nat)
  have "to_double (real (Suc RAND_MAX)) = real (Suc RAND_MAX)"
  proof (cases "Suc RAND_MAX < 2 ^ 53")
    case True
    then show ?thesis by (rule to_double_nat)
  next
    case False
    then have "Suc RAND_MAX = 2 ^ 53" using assms(1) by simp
    then show ?thesis using to_double_power2[of 53] by simp
  qed
  then have "to_double (real RAND_MAX + 1) = real RAND_MAX + 1" by (simp add: add.commute)
  then show ?thesis by (simp add: uniform_double_def r m)
qed

lemma uniform_double_less_one:
  assumes "RAND_MAX < 2 ^ 53" "r \<le> RAND_MAX"
  shows "uniform_double RAND_MAX r < 1"
proof -
  let ?q = "real r / (real RAND_MAX + 1)"
  have le: "real RAND_MAX + 1 \<le> 2 ^ 53"
    using assms(1) by (metis Suc_leI of_nat_Suc of_nat_le_iff of_nat_numeral of_nat_power add.commute)
  have "?q \<le> real RAND_MAX / (real RAND_MAX + 1)"
    using assms(2) by (intro divide_right_mono) simp_all
  also have "\<dots> = 1 - 1 / (real RAND_MAX + 1)" by (simp add: field_simps)
  also have "\<dots> \<le> 1 - 1 / 2 ^ 53"
    using le by (simp add: field_simps)
  finally have "?q \<le> (2 ^ 53 - 1) / 2 ^ 53" by (simp add: field_simps)
  moreover have "0 \<le> ?q" by simp
  ultimately have "to_double ?q \<le> to_double ((2 ^ 53 - 1) / 2 ^ 53)" by (rule to_double_mono[rotated])
  also have "\<dots> = (2 ^ 53 - 1) / 2 ^ 53"
    using to_double_dyadic[of "2 ^ 53 - 1" 53] by simp
  also have "\<dots> < 1" by simp
  finally show ?thesis using uniform_double_exact[OF assms] by simp
qed

text \<open>When \<^verbatim>\<open>RAND_MAX + 1\<close> is a power of two, the quotient of a small draw is exact.\<close>

lemma uniform_float_pow2:
  assumes "Suc RAND_MAX = 2 ^ k" "RAND_MAX < 2 ^ 24" "r \<le> RAND_MAX"
  shows "uniform_float RAND_MAX r = real r / 2 ^ k"
proof -
  have "r < 2 ^ 24" using assms by simp
  then have r: "to_float (real r) = real r" by (rule to_float_nat)
  have m: "to_float (real RAND_MAX) = real RAND_MAX" using assms(2) by (rule to_float_nat)
  have "real RAND_MAX + 1 = real (Suc RAND_MAX)" by simp
  also have "\<dots> = 2 ^ k" unfolding assms(1) by simp
  finally have d: "to_float (real RAND_MAX + 1) = 2 ^ k" by (simp add: to_float_power2)
  have "to_float (real r / 2 ^ k) = real r / 2 ^ k"
  proof (cases "r = 0")
    case True
    then show ?thesis by simp
  next
    case False
    then show ?thesis using to_float_dyadic[of "int r" k] \<open>r < 2 ^ 24\<close>
      by (simp add: of_nat_less_numeral_power_cancel_iff)
  qed
  then show ?thesis by (simp add: uniform_float_def r m d)
qed

lemma uniform_double_pow2:
  assumes "Suc RAND_MAX = 2 ^ k" "RAND_MAX < 2 ^ 53" "r \<le> RAND_MAX"
  shows "uniform_double RAND_MAX r = real r / 2 ^ k"
proof -
  have "r < 2 ^ 53" using assms by simp
  have "real RAND_MAX + 1 = real (Suc RAND_MAX)" by simp
  also have "\<dots> = 2 ^ k" unfolding assms(1) by simp
  finally have d: "real RAND_MAX + 1 = 2 ^ k" .
  have "to_double (real r / 2 ^ k) = real r / 2 ^ k"
  proof (cases "r = 0")
    case True
    then show ?thesis by simp
  next
    case False
    then show ?thesis using to_double_dyadic[of "int r" k] \<open>r < 2 ^ 53\<close>
      by (simp add: of_nat_less_numeral_power_cancel_iff)
  qed
  then show ?thesis using uniform_double_exact[OF assms(2,3)] by (simp add: d)
qed

section \<open>Properties of the operators\<close>

subsection \<open>Blending\<close>



subsection \<open>Recombination\<close>

lemma crossover_loop_run:
  "gsize - n = k \<Longrightarrow> n \<le> gsize \<Longrightarrow> gsize \<le> length mg \<Longrightarrow> gsize \<le> length fg \<Longrightarrow>
   gsize \<le> length cg \<Longrightarrow> 2 * k \<le> length ds \<Longrightarrow>
   \<exists>cg'. crossover_loop M rate mg fg cg n gsize ds = Inr (cg', drop (2 * k) ds) \<and>
     length cg' = length cg \<and>
     (\<forall>i. i < n \<longrightarrow> cg' ! i = cg ! i) \<and>
     (\<forall>i. n \<le> i \<and> i < gsize \<longrightarrow>
        cg' ! i = (if uniform_float M (ds ! (2 * (i - n))) > rate
                   then to_float (to_float (uniform_float M (ds ! (2 * (i - n) + 1)) * mg ! i)
                          + to_float (to_float (1 - uniform_float M (ds ! (2 * (i - n) + 1)))
                                      * fg ! i))
                   else if uniform_float M (ds ! (2 * (i - n) + 1)) > 0.5 then mg ! i else fg ! i))"
proof (induction k arbitrary: n cg ds)
  case 0
  then show ?case by (simp add: crossover_loop.simps)
next
  case (Suc k)
  from Suc.prems obtain u w rest where ds: "ds = u # w # rest"
    by (cases ds; cases "tl ds") auto
  let ?v = "(if uniform_float M u > rate
             then to_float (to_float (uniform_float M w * mg ! n)
                            + to_float (to_float (1 - uniform_float M w) * fg ! n))
             else if uniform_float M w > 0.5 then mg ! n else fg ! n)"
  have n: "n < gsize" using Suc.prems by simp
  have step: "crossover_loop M rate mg fg cg n gsize ds =
              crossover_loop M rate mg fg (cg[n := ?v]) (Suc n) gsize rest"
    using n Suc.prems ds by (subst crossover_loop.simps) simp
  have "\<exists>cg'. crossover_loop M rate mg fg (cg[n := ?v]) (Suc n) gsize rest
           = Inr (cg', drop (2 * k) rest) \<and>
     length cg' = length (cg[n := ?v]) \<and>
     (\<forall>i. i < Suc n \<longrightarrow> cg' ! i = (cg[n := ?v]) ! i) \<and>
     (\<forall>i. Suc n \<le> i \<and> i < gsize \<longrightarrow>
        cg' ! i = (if uniform_float M (rest ! (2 * (i - Suc n))) > rate
                   then to_float (to_float (uniform_float M (rest ! (2 * (i - Suc n) + 1)) * mg ! i)
                          + to_float (to_float (1 - uniform_float M (rest ! (2 * (i - Suc n) + 1)))
                                      * fg ! i))
                   else if uniform_float M (rest ! (2 * (i - Suc n) + 1)) > 0.5
                        then mg ! i else fg ! i))"
    using Suc.prems ds by (intro Suc.IH) auto
  then obtain cg' where r: "crossover_loop M rate mg fg (cg[n := ?v]) (Suc n) gsize rest
           = Inr (cg', drop (2 * k) rest)"
     and l: "length cg' = length cg"
     and lo: "\<And>i. i < Suc n \<Longrightarrow> cg' ! i = (cg[n := ?v]) ! i"
     and hi: "\<And>i. Suc n \<le> i \<Longrightarrow> i < gsize \<Longrightarrow>
        cg' ! i = (if uniform_float M (rest ! (2 * (i - Suc n))) > rate
                   then to_float (to_float (uniform_float M (rest ! (2 * (i - Suc n) + 1)) * mg ! i)
                          + to_float (to_float (1 - uniform_float M (rest ! (2 * (i - Suc n) + 1)))
                                      * fg ! i))
                   else if uniform_float M (rest ! (2 * (i - Suc n) + 1)) > 0.5
                        then mg ! i else fg ! i)"
    by auto
  have a: "crossover_loop M rate mg fg cg n gsize ds = Inr (cg', drop (2 * Suc k) ds)"
    using step r ds by simp
  have b: "\<forall>i. i < n \<longrightarrow> cg' ! i = cg ! i"
    using lo by simp
  have c: "\<forall>i. n \<le> i \<and> i < gsize \<longrightarrow>
        cg' ! i = (if uniform_float M (ds ! (2 * (i - n))) > rate
                   then to_float (to_float (uniform_float M (ds ! (2 * (i - n) + 1)) * mg ! i)
                          + to_float (to_float (1 - uniform_float M (ds ! (2 * (i - n) + 1)))
                                      * fg ! i))
                   else if uniform_float M (ds ! (2 * (i - n) + 1)) > 0.5 then mg ! i else fg ! i)"
  proof (intro allI impI)
    fix i assume i: "n \<le> i \<and> i < gsize"
    show "cg' ! i = (if uniform_float M (ds ! (2 * (i - n))) > rate
                   then to_float (to_float (uniform_float M (ds ! (2 * (i - n) + 1)) * mg ! i)
                          + to_float (to_float (1 - uniform_float M (ds ! (2 * (i - n) + 1)))
                                      * fg ! i))
                   else if uniform_float M (ds ! (2 * (i - n) + 1)) > 0.5 then mg ! i else fg ! i)"
    proof (cases "i = n")
      case True
      have "cg' ! n = ?v" using lo[of n] Suc.prems n by simp
      then show ?thesis using True ds by simp
    next
      case False
      then have s: "Suc n \<le> i" using i by simp
      then obtain j where j: "i - n = Suc j" "i - Suc n = j" by (cases "i - n") auto
      show ?thesis using hi[OF s] i j ds by simp
    qed
  qed
  show ?case using a l b c by blast
qed


text \<open>Values of the draws and roundings of the examples.\<close>

lemma uniform_float_3: "r \<le> 3 \<Longrightarrow> uniform_float 3 r = real r / 4"
  using uniform_float_pow2[of 3 2 r] by simp

lemma uniform_double_3: "r \<le> 3 \<Longrightarrow> uniform_double 3 r = real r / 4"
  using uniform_double_pow2[of 3 2 r] by simp






lemma to_float_quarters: "to_float (1 / 4) = 1 / 4" "to_float (1 / 2) = 1 / 2" "to_float (3 / 4) = 3 / 4"
  using to_float_dyadic[of 1 2] to_float_dyadic[of 1 1] to_float_dyadic[of 3 2] by simp_all



subsection \<open>Mutation\<close>

lemma mutate_loop_rate_0:
  "gsize - g = k \<Longrightarrow> k \<le> length ds \<Longrightarrow>
   mutate_loop RAND_MAX 0 g gsize gs ds = Inr (gs, drop k ds)"
proof (induction k arbitrary: g ds)
  case 0
  then show ?case by (simp add: mutate_loop.simps)
next
  case (Suc k)
  then obtain r rest where ds: "ds = r # rest" by (cases ds) auto
  have g: "g < gsize" using Suc.prems by arith
  have "\<not> uniform_double RAND_MAX r < 0" using uniform_double_nonneg[of RAND_MAX r] by simp
  then have "mutate_loop RAND_MAX 0 g gsize gs ds = mutate_loop RAND_MAX 0 (Suc g) gsize gs rest"
    using g ds by (subst mutate_loop.simps) simp
  moreover have "mutate_loop RAND_MAX 0 (Suc g) gsize gs rest = Inr (gs, drop k rest)"
    using Suc.prems ds by (intro Suc.IH) auto
  ultimately show ?case using ds by simp
qed

lemma mutate_loop_rate_1:
  "gsize - g = k \<Longrightarrow> gsize \<le> length gs \<Longrightarrow> 2 * k \<le> length ds \<Longrightarrow>
   RAND_MAX < 2 ^ 53 \<Longrightarrow> \<forall>d\<in>set ds. d \<le> RAND_MAX \<Longrightarrow>
   \<exists>gs'. mutate_loop RAND_MAX 1 g gsize gs ds = Inr (gs', drop (2 * k) ds) \<and>
     length gs' = length gs \<and>
     (\<forall>i. i < g \<longrightarrow> gs' ! i = gs ! i) \<and>
     (\<forall>i. g \<le> i \<and> i < gsize \<longrightarrow>
        gs' ! i = to_float (uniform_double RAND_MAX (ds ! (2 * (i - g) + 1))))"
proof (induction k arbitrary: g gs ds)
  case 0
  then show ?case by (simp add: mutate_loop.simps)
next
  case (Suc k)
  from Suc.prems obtain r r' rest where ds: "ds = r # r' # rest"
    by (cases ds; cases "tl ds") auto
  let ?v = "to_float (uniform_double RAND_MAX r')"
  have g: "g < gsize" "g < length gs" using Suc.prems by arith+
  have "r \<le> RAND_MAX" using Suc.prems ds by simp
  then have "uniform_double RAND_MAX r < 1"
    using Suc.prems(4) by (intro uniform_double_less_one)
  then have step: "mutate_loop RAND_MAX 1 g gsize gs ds =
      mutate_loop RAND_MAX 1 (Suc g) gsize (gs[g := ?v]) rest"
    using g ds by (subst mutate_loop.simps) simp
  have "\<exists>gs'. mutate_loop RAND_MAX 1 (Suc g) gsize (gs[g := ?v]) rest
            = Inr (gs', drop (2 * k) rest) \<and>
     length gs' = length (gs[g := ?v]) \<and>
     (\<forall>i. i < Suc g \<longrightarrow> gs' ! i = (gs[g := ?v]) ! i) \<and>
     (\<forall>i. Suc g \<le> i \<and> i < gsize \<longrightarrow>
        gs' ! i = to_float (uniform_double RAND_MAX (rest ! (2 * (i - Suc g) + 1))))"
    using Suc.prems ds by (intro Suc.IH) auto
  then obtain gs' where r: "mutate_loop RAND_MAX 1 (Suc g) gsize (gs[g := ?v]) rest
            = Inr (gs', drop (2 * k) rest)"
    and l: "length gs' = length gs"
    and lo: "\<And>i. i < Suc g \<Longrightarrow> gs' ! i = (gs[g := ?v]) ! i"
    and hi: "\<And>i. Suc g \<le> i \<Longrightarrow> i < gsize \<Longrightarrow>
               gs' ! i = to_float (uniform_double RAND_MAX (rest ! (2 * (i - Suc g) + 1)))"
    by auto
  have a: "mutate_loop RAND_MAX 1 g gsize gs ds = Inr (gs', drop (2 * Suc k) ds)"
    using step r ds by simp
  have b: "\<forall>i. i < g \<longrightarrow> gs' ! i = gs ! i" using lo by simp
  have c: "\<forall>i. g \<le> i \<and> i < gsize \<longrightarrow>
             gs' ! i = to_float (uniform_double RAND_MAX (ds ! (2 * (i - g) + 1)))"
  proof (intro allI impI)
    fix i assume i: "g \<le> i \<and> i < gsize"
    show "gs' ! i = to_float (uniform_double RAND_MAX (ds ! (2 * (i - g) + 1)))"
    proof (cases "i = g")
      case True
      have "gs' ! g = ?v" using lo[of g] g by simp
      then show ?thesis using True ds by simp
    next
      case False
      then have s: "Suc g \<le> i" using i by simp
      then obtain j where j: "i - g = Suc j" "i - Suc g = j" by (cases "i - g") auto
      show ?thesis using hi[OF s] i j ds by simp
    qed
  qed
  show ?case using a l b c by blast
qed

text \<open>
  The \<^verbatim>\<open>double\<close> quotient lies in \<open>[0, 1)\<close>; stored in a \<^verbatim>\<open>float\<close> gene it lies in \<open>[0, 1]\<close>, and
  it is 1 from \<open>1 - 2^-25\<close> on, the middle between 1 and the \<^verbatim>\<open>float\<close> below it.
\<close>

lemma mutated_gene_range:
  assumes "RAND_MAX < 2 ^ 53" "r \<le> RAND_MAX"
  shows "0 \<le> to_float (uniform_double RAND_MAX r) \<and> to_float (uniform_double RAND_MAX r) \<le> 1"
proof -
  have "to_float (uniform_double RAND_MAX r) \<le> to_float 1"
    using uniform_double_less_one[OF assms] uniform_double_nonneg[of RAND_MAX r]
    by (intro to_float_mono) simp_all
  then show ?thesis
    using uniform_double_nonneg[of RAND_MAX r] by (simp add: to_float_nonneg)
qed

lemma to_float_below_one: "to_float (33554431 / 33554432) = 1"
  unfolding to_float_def
  by (subst fl_round_places[where k = 24]) (simp_all add: round_even_def)

lemma mutated_gene_one:
  assumes "2147483584 \<le> r" "r \<le> 2147483647"
  shows "to_float (uniform_double 2147483647 r) = 1"
proof -
  have q: "uniform_double 2147483647 r = real r / 2 ^ 31"
    using assms(2) by (intro uniform_double_pow2) simp_all
  have "(2147483584 :: real) \<le> real r" using assms(1) by linarith
  then have lo: "33554431 / 33554432 \<le> real r / 2 ^ 31" by simp
  have "real r \<le> 2147483647" using assms(2) by linarith
  then have hi: "real r / 2 ^ 31 \<le> 1" by simp
  have "to_float (33554431 / 33554432) \<le> to_float (real r / 2 ^ 31)"
    using lo by (intro to_float_mono) simp_all
  moreover have "to_float (real r / 2 ^ 31) \<le> to_float 1"
    using hi by (intro to_float_mono) simp_all
  ultimately show ?thesis unfolding q by (simp add: to_float_below_one)
qed

text \<open>
  Claim C6, on the code as it is. With the mutation rate 0, \<open>mutate\<close> returns the genome
  it was given (one draw per gene is consumed, no gene is written). With the mutation
  rate 1, \<^verbatim>\<open>RAND_MAX\<close> below \<open>2^53\<close> and draws within \<^verbatim>\<open>RAND_MAX\<close>, every gene is replaced by
  the \<^verbatim>\<open>double\<close> quotient of the second draw of its position, converted to \<^verbatim>\<open>float\<close>: a value
  in the closed interval \<open>[0, 1]\<close>, and exactly 1 when \<^verbatim>\<open>RAND_MAX\<close> is \<open>2^31 - 1\<close> and the draw
  is \<open>2147483584\<close> or more. The genome's size field, the length of its gene array and its
  fitness are the same in both cases.
\<close>

theorem mutate_boundary_rates:
  "(genome_size g \<le> length ds \<longrightarrow> mutate RAND_MAX g 0 ds = Inr (g, drop (genome_size g) ds))
   \<and> (genome_size g \<le> length (genes g) \<and> 2 * genome_size g \<le> length ds
        \<and> RAND_MAX < 2 ^ 53 \<and> (\<forall>d\<in>set ds. d \<le> RAND_MAX) \<longrightarrow>
       (\<exists>g'. mutate RAND_MAX g 1 ds = Inr (g', drop (2 * genome_size g) ds)
          \<and> genome_size g' = genome_size g \<and> length (genes g') = length (genes g)
          \<and> fitness g' = fitness g
          \<and> (\<forall>i<genome_size g.
                genes g' ! i = to_float (uniform_double RAND_MAX (ds ! (2 * i + 1)))
                \<and> 0 \<le> genes g' ! i \<and> genes g' ! i \<le> 1
                \<and> (RAND_MAX = 2147483647 \<and> 2147483584 \<le> ds ! (2 * i + 1) \<longrightarrow>
                     genes g' ! i = 1))))"
proof (intro conjI impI)
  assume "genome_size g \<le> length ds"
  then show "mutate RAND_MAX g 0 ds = Inr (g, drop (genome_size g) ds)"
    using mutate_loop_rate_0[of "genome_size g" 0 "genome_size g" ds RAND_MAX "genes g"]
    by (simp add: mutate_def)
next
  assume h: "genome_size g \<le> length (genes g) \<and> 2 * genome_size g \<le> length ds
        \<and> RAND_MAX < 2 ^ 53 \<and> (\<forall>d\<in>set ds. d \<le> RAND_MAX)"
  then obtain gs' where run: "mutate_loop RAND_MAX 1 0 (genome_size g) (genes g) ds
        = Inr (gs', drop (2 * genome_size g) ds)"
    and len: "length gs' = length (genes g)"
    and val: "\<And>i. i < genome_size g \<Longrightarrow>
                gs' ! i = to_float (uniform_double RAND_MAX (ds ! (2 * i + 1)))"
    using mutate_loop_rate_1[of "genome_size g" 0 "genome_size g" "genes g" ds RAND_MAX]
    by auto
  let ?g = "g\<lparr>genes := gs'\<rparr>"
  have res: "mutate RAND_MAX g 1 ds = Inr (?g, drop (2 * genome_size g) ds)"
    using run by (simp add: mutate_def)
  have shape: "genome_size ?g = genome_size g \<and> length (genes ?g) = length (genes g)
      \<and> fitness ?g = fitness g"
    using len by simp
  have range: "\<forall>i<genome_size g.
                genes ?g ! i = to_float (uniform_double RAND_MAX (ds ! (2 * i + 1)))
                \<and> 0 \<le> genes ?g ! i \<and> genes ?g ! i \<le> 1
                \<and> (RAND_MAX = 2147483647 \<and> 2147483584 \<le> ds ! (2 * i + 1) \<longrightarrow>
                     genes ?g ! i = 1)"
  proof (intro allI impI)
    fix i assume i: "i < genome_size g"
    then have "2 * i + 1 < length ds" using h by simp
    then have "ds ! (2 * i + 1) \<in> set ds" by (rule nth_mem)
    then have d: "ds ! (2 * i + 1) \<le> RAND_MAX" using h by simp
    have m: "RAND_MAX < 2 ^ 53" using h by simp
    have one: "genes ?g ! i = 1" if "RAND_MAX = 2147483647 \<and> 2147483584 \<le> ds ! (2 * i + 1)"
      using val[OF i] mutated_gene_one[of "ds ! (2 * i + 1)"] d that by simp
    show "genes ?g ! i = to_float (uniform_double RAND_MAX (ds ! (2 * i + 1)))
                \<and> 0 \<le> genes ?g ! i \<and> genes ?g ! i \<le> 1
                \<and> (RAND_MAX = 2147483647 \<and> 2147483584 \<le> ds ! (2 * i + 1) \<longrightarrow>
                     genes ?g ! i = 1)"
      using val[OF i] mutated_gene_range[OF m d] one by simp
  qed
  show "\<exists>g'. mutate RAND_MAX g 1 ds = Inr (g', drop (2 * genome_size g) ds)
          \<and> genome_size g' = genome_size g \<and> length (genes g') = length (genes g)
          \<and> fitness g' = fitness g
          \<and> (\<forall>i<genome_size g.
                genes g' ! i = to_float (uniform_double RAND_MAX (ds ! (2 * i + 1)))
                \<and> 0 \<le> genes g' ! i \<and> genes g' ! i \<le> 1
                \<and> (RAND_MAX = 2147483647 \<and> 2147483584 \<le> ds ! (2 * i + 1) \<longrightarrow>
                     genes g' ! i = 1))"
    using res shape range by blast
qed

theorem mutate_boundary_rates_witness:
  "mutate 2147483647 \<lparr>genome_size = 1, genes = [1 / 2], fitness = 5\<rparr> 0 [7]
     = Inr (\<lparr>genome_size = 1, genes = [1 / 2], fitness = 5\<rparr>, [])
   \<and> (\<exists>g'. mutate 2147483647 \<lparr>genome_size = 1, genes = [1 / 2], fitness = 5\<rparr> 1 [7, 2147483647]
             = Inr (g', [])
          \<and> genome_size g' = 1 \<and> fitness g' = 5 \<and> length (genes g') = 1 \<and> genes g' ! 0 = 1)"
proof -
  let ?g = "\<lparr>genome_size = 1, genes = [1 / 2], fitness = 5\<rparr>"
  have zero: "mutate 2147483647 ?g 0 [7] = Inr (?g, [])"
    using mutate_boundary_rates[of ?g "[7]" 2147483647] by simp
  have "genome_size ?g \<le> length (genes ?g) \<and> 2 * genome_size ?g \<le> length [7, 2147483647::nat]
        \<and> (2147483647::nat) < 2 ^ 53 \<and> (\<forall>d\<in>set [7, 2147483647::nat]. d \<le> 2147483647)" by simp
  with mutate_boundary_rates[of ?g "[7, 2147483647]" 2147483647]
  obtain g' where g': "mutate 2147483647 ?g 1 [7, 2147483647] = Inr (g', [])"
      "genome_size g' = 1" "fitness g' = 5" "length (genes g') = 1"
    and v: "\<forall>i<1. 2147483584 \<le> [7, 2147483647::nat] ! (2 * i + 1) \<longrightarrow> genes g' ! i = 1"
    by auto
  have "genes g' ! 0 = 1" using v[rule_format, of 0] by simp
  then show ?thesis using zero g' by blast
qed

section \<open>Properties of the generation step\<close>

subsection \<open>Sorting\<close>

lemma genome_compare_le: "genome_compare a b \<le> 0 \<longleftrightarrow> fitness a \<le> fitness b"
  by (simp add: genome_compare_def)

lemma qsort_insert_mset: "mset (qsort_insert cmp x ys) = add_mset x (mset ys)"
  by (induction ys) simp_all

lemma qsort_mset: "mset (qsort cmp xs) = mset xs"
  by (induction xs) (simp_all add: qsort_insert_mset)

lemma qsort_set: "set (qsort cmp xs) = set xs"
  using qsort_mset[of cmp xs] by (metis set_mset_mset)

lemma qsort_length: "length (qsort cmp xs) = length xs"
  using qsort_mset[of cmp xs] by (metis size_mset)

lemma qsort_insert_sorted:
  "sorted (map fitness ys) \<Longrightarrow> sorted (map fitness (qsort_insert genome_compare x ys))"
proof (induction ys)
  case Nil
  then show ?case by simp
next
  case (Cons y ys)
  have "set (qsort_insert genome_compare x ys) = insert x (set ys)"
    using qsort_insert_mset[of genome_compare x ys] by (metis set_mset_mset set_mset_add_mset_insert)
  then show ?case using Cons by (auto simp: genome_compare_le)
qed

lemma qsort_sorted: "sorted (map fitness (qsort genome_compare xs))"
  by (induction xs) (simp_all add: qsort_insert_sorted)

subsection \<open>The sum of the fitness values\<close>






subsection \<open>The selection distribution\<close>

lemma cumulative_prob_length: "length (cumulative_prob t c inds) = length inds"
  by (induction inds arbitrary: c) simp_all






subsection \<open>The engine that micro_ga_init leaves behind\<close>

text \<open>
  \<open>initialized\<close> collects what \<open>micro_ga_init\<close> establishes on success: the ready flag, the
  objective function, positive sizes, an array of \<open>population_size\<close> individuals, each with
  a gene buffer of \<open>ga_genome_size\<close> floats and that size in its own field.
\<close>

definition initialized :: "micro_ga_t \<Rightarrow> bool" where
  "initialized ga \<longleftrightarrow>
     ready ga = 1 \<and> fitness_fn ga \<noteq> None \<and> 0 < population_size ga \<and> 0 < ga_genome_size ga
     \<and> length (individuals ga) = population_size ga
     \<and> (\<forall>g\<in>set (individuals ga).
           genome_size g = ga_genome_size ga \<and> length (genes g) = ga_genome_size ga)"

text \<open>An engine of two individuals, already evaluated by its objective function.\<close>

definition demo_fitness :: "micro_ga_genome_t \<Rightarrow> micro_ga_genome_t" where
  "demo_fitness g = g\<lparr>fitness := 4 * genes g ! 0\<rparr>"

definition demo_ga :: micro_ga_t where
  "demo_ga = \<lparr>generation = 0, population_size = 2, mutation_rate = 0, crossover_rate = 0,
              fitness_thresh = 1 / 2,
              individuals = [\<lparr>genome_size = 1, genes = [3 / 4], fitness = 3\<rparr>,
                             \<lparr>genome_size = 1, genes = [1 / 4], fitness = 1\<rparr>],
              ga_genome_size = 1, fitness_fn = Some demo_fitness, acceptance_fn = None,
              ready = 1, debug = 0\<rparr>"

lemma demo_initialized: "initialized demo_ga"
  by (simp add: initialized_def demo_ga_def)

lemma demo_evaluated: "\<forall>g\<in>set (individuals demo_ga). demo_fitness g = g"
  by (simp add: demo_ga_def demo_fitness_def)

text \<open>The values of the two types that the examples meet.\<close>

lemma to_double_demo:
  "to_double 3 = 3" "to_double 4 = 4" "to_double (1 / 4) = 1 / 4" "to_double (1 / 2) = 1 / 2"
  "to_double (3 / 4) = 3 / 4" "to_double (5 / 2) = 5 / 2" "to_double (11 / 2) = 11 / 2"
  using to_double_nat[of 3] to_double_nat[of 4] to_double_dyadic[of 1 2] to_double_dyadic[of 1 1]
    to_double_dyadic[of 3 2] to_double_dyadic[of 5 1] to_double_dyadic[of 11 1]
  by simp_all

lemma to_float_demo:
  "to_float (1 / 16) = 1 / 16" "to_float (9 / 16) = 9 / 16" "to_float (5 / 8) = 5 / 8"
  "to_float (5 / 32) = 5 / 32" "to_float (23 / 32) = 23 / 32"
  using to_float_dyadic[of 1 4] to_float_dyadic[of 9 4] to_float_dyadic[of 5 3]
    to_float_dyadic[of 5 5] to_float_dyadic[of 23 5]
  by simp_all

lemma demo_evolve:
  "micro_ga_evolve 3 (\<lambda>k. True) demo_ga [0, 3, 2, 1, 0]
   = ([FitnessCall \<lparr>genome_size = 1, genes = [3 / 4], fitness = 3\<rparr>,
       FitnessCall \<lparr>genome_size = 1, genes = [1 / 4], fitness = 1\<rparr>],
      Inr (demo_ga\<lparr>individuals := [\<lparr>genome_size = 1, genes = [5 / 8], fitness = -1\<rparr>,
                                     \<lparr>genome_size = 1, genes = [3 / 4], fitness = 3\<rparr>]\<rparr>, []))"
  by (simp add: micro_ga_evolve_def demo_ga_def Let_def demo_fitness_def genome_compare_def
      total_fitness_def dbl_div_def select_parents.simps uniform_double_3 uniform_float_3
      to_double_demo to_float_demo to_float_quarters calloc_children_def upt_rec
      crossover_def crossover_loop.simps breed.simps mutate_children.simps mutate_def
      mutate_loop.simps replace_individuals.simps)

text \<open>
  The next generation: the first slot is evaluated to \<open>5/2\<close>, the sum is \<open>11/2\<close>, and the two
  entries of \<^verbatim>\<open>prob\<close> are the roundings of \<open>5/11\<close> and of its sum with the rounding of \<open>6/11\<close>.
\<close>

lemma demo_prob:
  "0 \<le> to_double (to_double (5 / 11))"
  "\<not> 3 / 4 \<le> to_double (to_double (5 / 11))"
  "3 / 4 \<le> to_double (to_double (to_double (5 / 11)) + to_double (6 / 11))"
proof -
  have "to_double (1 / 4) \<le> to_double (5 / 11)" by (intro to_double_mono) simp_all
  then have lo: "1 / 4 \<le> to_double (5 / 11)" by (simp add: to_double_demo)
  have "to_double (5 / 11) \<le> to_double (1 / 2)" by (intro to_double_mono) simp_all
  then have hi: "to_double (5 / 11) \<le> 1 / 2" by (simp add: to_double_demo)
  have "to_double (1 / 4) \<le> to_double (to_double (5 / 11))"
    using lo by (intro to_double_mono) simp_all
  then have lo2: "1 / 4 \<le> to_double (to_double (5 / 11))" by (simp add: to_double_demo)
  have "to_double (to_double (5 / 11)) \<le> to_double (1 / 2)"
    using lo hi by (intro to_double_mono) simp_all
  then have hi2: "to_double (to_double (5 / 11)) \<le> 1 / 2" by (simp add: to_double_demo)
  have "to_double (1 / 2) \<le> to_double (6 / 11)" by (intro to_double_mono) simp_all
  then have q: "1 / 2 \<le> to_double (6 / 11)" by (simp add: to_double_demo)
  have "to_double (3 / 4) \<le> to_double (to_double (to_double (5 / 11)) + to_double (6 / 11))"
    using lo2 q by (intro to_double_mono) simp_all
  then show "3 / 4 \<le> to_double (to_double (to_double (5 / 11)) + to_double (6 / 11))"
    by (simp add: to_double_demo)
  show "0 \<le> to_double (to_double (5 / 11))" using lo2 by simp
  show "\<not> 3 / 4 \<le> to_double (to_double (5 / 11))" using hi2 by simp
qed

lemma demo_evolve_again:
  "micro_ga_evolve 3 (\<lambda>k. True)
     (demo_ga\<lparr>individuals := [\<lparr>genome_size = 1, genes = [5 / 8], fitness = -1\<rparr>,
                               \<lparr>genome_size = 1, genes = [3 / 4], fitness = 3\<rparr>]\<rparr>)
     [0, 3, 2, 1, 0]
   = ([FitnessCall \<lparr>genome_size = 1, genes = [5 / 8], fitness = -1\<rparr>,
       FitnessCall \<lparr>genome_size = 1, genes = [3 / 4], fitness = 3\<rparr>],
      Inr (demo_ga\<lparr>individuals := [\<lparr>genome_size = 1, genes = [23 / 32], fitness = -1\<rparr>,
                                     \<lparr>genome_size = 1, genes = [3 / 4], fitness = 3\<rparr>]\<rparr>, []))"
  using demo_prob
  by (simp add: micro_ga_evolve_def demo_ga_def Let_def demo_fitness_def genome_compare_def
      total_fitness_def dbl_div_def select_parents.simps uniform_double_3 uniform_float_3
      to_double_demo to_float_demo to_float_quarters calloc_children_def upt_rec
      crossover_def crossover_loop.simps breed.simps mutate_children.simps mutate_def
      mutate_loop.simps replace_individuals.simps)

subsection \<open>The phases of micro_ga_evolve\<close>

lemma evaluate_map: "evaluate f xs = (map f xs, map FitnessCall xs)"
  by (induction xs) simp_all

lemma sorted_last_max:
  assumes "sorted (map fitness xs)" "x \<in> set xs"
  shows "fitness x \<le> fitness (last xs)"
proof -
  from assms(2) obtain i where i: "i < length xs" "xs ! i = x"
    by (auto simp: in_set_conv_nth)
  then have ne: "xs \<noteq> []" by auto
  have "map fitness xs ! i \<le> map fitness xs ! (length xs - 1)"
    using assms(1) i by (intro sorted_nth_mono) auto
  then show ?thesis using i ne by (simp add: last_conv_nth)
qed

lemma replace_individuals_result:
  "replace_individuals n replace children inds = Inr inds' \<Longrightarrow>
   length inds' = length inds
   \<and> (\<forall>i<length inds. i < n \<or> replace \<le> i \<longrightarrow> inds' ! i = inds ! i)
   \<and> (\<forall>i. n \<le> i \<and> i < replace \<longrightarrow>
         i < length inds \<and> genome_size (inds' ! i) = genome_size (children ! i)
         \<and> fitness (inds' ! i) = -1 \<and> length (genes (inds' ! i)) = length (genes (inds ! i)))"
proof (induction n replace children inds rule: replace_individuals.induct)
  case (1 n replace children inds)
  show ?case
  proof (cases "n < replace")
    case False
    then show ?thesis using "1.prems" by (simp add: replace_individuals.simps)
  next
    case True
    let ?new = "(inds ! n)\<lparr>genome_size := genome_size (children ! n),
                   genes := take (genome_size (children ! n)) (genes (children ! n))
                            @ drop (genome_size (children ! n)) (genes (inds ! n)),
                   fitness := -1\<rparr>"
    have guard: "n < length inds \<and> n < length children
            \<and> genome_size (children ! n) \<le> length (genes (inds ! n))
            \<and> genome_size (children ! n) \<le> length (genes (children ! n))"
      using "1.prems" True by (subst (asm) replace_individuals.simps) (simp split: if_splits)
    then have rec: "replace_individuals (Suc n) replace children (inds[n := ?new]) = Inr inds'"
      using "1.prems" True by (subst (asm) replace_individuals.simps) simp
    from "1.IH"[OF True guard rec]
    have len: "length inds' = length inds"
      and keep: "\<And>i. i < length inds \<Longrightarrow> i < Suc n \<or> replace \<le> i \<Longrightarrow> inds' ! i = (inds[n := ?new]) ! i"
      and new: "\<And>i. Suc n \<le> i \<Longrightarrow> i < replace \<Longrightarrow>
         i < length inds \<and> genome_size (inds' ! i) = genome_size (children ! i)
         \<and> fitness (inds' ! i) = -1
         \<and> length (genes (inds' ! i)) = length (genes ((inds[n := ?new]) ! i))"
      by auto
    have a: "\<forall>i<length inds. i < n \<or> replace \<le> i \<longrightarrow> inds' ! i = inds ! i"
    proof (intro allI impI)
      fix i assume i: "i < length inds" "i < n \<or> replace \<le> i"
      then have "i \<noteq> n" using True by auto
      then show "inds' ! i = inds ! i" using keep[of i] i by auto
    qed
    have b: "\<forall>i. n \<le> i \<and> i < replace \<longrightarrow>
         i < length inds \<and> genome_size (inds' ! i) = genome_size (children ! i)
         \<and> fitness (inds' ! i) = -1 \<and> length (genes (inds' ! i)) = length (genes (inds ! i))"
    proof (intro allI impI)
      fix i assume i: "n \<le> i \<and> i < replace"
      show "i < length inds \<and> genome_size (inds' ! i) = genome_size (children ! i)
         \<and> fitness (inds' ! i) = -1 \<and> length (genes (inds' ! i)) = length (genes (inds ! i))"
      proof (cases "i = n")
        case True
        have "inds' ! n = ?new" using keep[of n] guard by simp
        then show ?thesis using True guard by simp
      next
        case False
        then have "Suc n \<le> i" using i by simp
        then show ?thesis using new[of i] i False by simp
      qed
    qed
    show ?thesis using len a b by blast
  qed
qed

lemma micro_ga_evolve_Inr:
  assumes "snd (micro_ga_evolve RAND_MAX alloc ga ds) = Inr (ga', ds')"
  shows "ready ga = 1 \<and> 0 < population_size ga \<and> population_size ga \<le> length (individuals ga)
    \<and> (\<exists>f parents ds1 children1 ds2 children2 inds3.
         fitness_fn ga = Some f
         \<and> select_parents RAND_MAX
              (cumulative_prob
                 (total_fitness
                    (qsort genome_compare (map f (take (population_size ga) (individuals ga)))))
                 (Fin 0)
                 (qsort genome_compare (map f (take (population_size ga) (individuals ga)))))
              (population_size ga - 1) 0 0
              (if alloc 1 then replicate (population_size ga * 2) 0 else []) ds
            = Inr (parents, ds1)
         \<and> breed RAND_MAX (qsort genome_compare (map f (take (population_size ga) (individuals ga))))
              parents (ga_genome_size ga) (crossover_rate ga) 0 0 (population_size ga - 1)
              (calloc_children alloc (population_size ga) (ga_genome_size ga)) ds1
            = Inr (children1, ds2)
         \<and> mutate_children RAND_MAX (mutation_rate ga) 0 (population_size ga - 1) children1 ds2
            = Inr (children2, ds')
         \<and> replace_individuals 0 (population_size ga - 1) children2
              (qsort genome_compare (map f (take (population_size ga) (individuals ga))))
            = Inr inds3
         \<and> ga' = ga\<lparr>individuals := inds3 @ drop (population_size ga) (individuals ga)\<rparr>)"
  using assms
  by (simp add: micro_ga_evolve_def Let_def evaluate_map
           split: if_splits option.splits sum.splits prod.splits)

subsection \<open>The distribution that micro_ga_evolve computes\<close>




subsection \<open>Elitism\<close>

text \<open>
  Claim C1. Let the engine be initialized and its population evaluated (the objective
  function leaves every individual as it is). When \<open>micro_ga_evolve\<close> returns, slot
  \<open>population_size - 1\<close> holds an individual of the population before the call, genes and
  fitness included, and no individual before the call had a higher fitness. When one
  individual \<open>e\<close> alone had the maximum fitness, that slot holds \<open>e\<close>.
\<close>

theorem elitism:
  assumes init: "initialized ga"
    and fn: "fitness_fn ga = Some f"
    and evaluated: "\<forall>g\<in>set (individuals ga). f g = g"
    and run: "snd (micro_ga_evolve RAND_MAX alloc ga ds) = Inr (ga', ds')"
  shows "length (individuals ga') = population_size ga
     \<and> individuals ga' ! (population_size ga - 1) \<in> set (individuals ga)
     \<and> (\<forall>g\<in>set (individuals ga).
           fitness g \<le> fitness (individuals ga' ! (population_size ga - 1)))
     \<and> (\<forall>e\<in>set (individuals ga).
           (\<forall>g\<in>set (individuals ga). fitness g \<le> fitness e \<and> (fitness g = fitness e \<longrightarrow> g = e))
           \<longrightarrow> individuals ga' ! (population_size ga - 1) = e)"
proof -
  let ?pop = "population_size ga"
  have len: "length (individuals ga) = ?pop" and pos: "0 < ?pop"
    using init by (simp_all add: initialized_def)
  have same: "map f (take ?pop (individuals ga)) = individuals ga"
    using evaluated len by (simp add: map_idI)
  let ?sorted = "qsort genome_compare (individuals ga)"
  from micro_ga_evolve_Inr[OF run] fn same len
  obtain children2 inds3 where
    rep: "replace_individuals 0 (?pop - 1) children2 ?sorted = Inr inds3"
    and ga': "ga' = ga\<lparr>individuals := inds3\<rparr>"
    by auto
  have slen: "length ?sorted = ?pop" by (simp add: qsort_length len)
  have l3: "length inds3 = ?pop"
    using replace_individuals_result[OF rep] slen by simp
  have ne: "?sorted \<noteq> []" using slen pos by auto
  have "inds3 ! (?pop - 1) = ?sorted ! (?pop - 1)"
    using replace_individuals_result[OF rep] slen pos by simp
  also have "\<dots> = last ?sorted"
    using slen ne by (simp add: last_conv_nth)
  finally have kept: "individuals ga' ! (?pop - 1) = last ?sorted"
    using ga' by simp
  have mem: "last ?sorted \<in> set (individuals ga)"
    using last_in_set[OF ne] by (simp add: qsort_set)
  have top: "\<forall>g\<in>set (individuals ga). fitness g \<le> fitness (last ?sorted)"
    using sorted_last_max[OF qsort_sorted, of _ "individuals ga"] by (simp add: qsort_set)
  have uniq: "\<forall>e\<in>set (individuals ga).
           (\<forall>g\<in>set (individuals ga). fitness g \<le> fitness e \<and> (fitness g = fitness e \<longrightarrow> g = e))
           \<longrightarrow> last ?sorted = e"
  proof (intro ballI impI)
    fix e assume e: "e \<in> set (individuals ga)"
      and m: "\<forall>g\<in>set (individuals ga). fitness g \<le> fitness e \<and> (fitness g = fitness e \<longrightarrow> g = e)"
    have "fitness (last ?sorted) \<le> fitness e" using m mem by blast
    moreover have "fitness e \<le> fitness (last ?sorted)" using top e by blast
    ultimately have "fitness (last ?sorted) = fitness e" by simp
    then show "last ?sorted = e" using m mem by blast
  qed
  have l3': "length (individuals ga') = ?pop" using l3 ga' by simp
  show ?thesis
    unfolding kept using l3' mem top uniq by blast
qed

theorem elitism_witness:
  "initialized demo_ga
   \<and> (\<exists>ga'. snd (micro_ga_evolve 3 (\<lambda>k. True) demo_ga [0, 3, 2, 1, 0]) = Inr (ga', [])
        \<and> individuals ga' ! 1 = \<lparr>genome_size = 1, genes = [3 / 4], fitness = 3\<rparr>)"
proof -
  let ?e = "\<lparr>genome_size = 1, genes = [3 / 4::real], fitness = 3\<rparr>"
  let ?ga' = "demo_ga\<lparr>individuals := [\<lparr>genome_size = 1, genes = [5 / 8], fitness = -1\<rparr>, ?e]\<rparr>"
  have run: "snd (micro_ga_evolve 3 (\<lambda>k. True) demo_ga [0, 3, 2, 1, 0]) = Inr (?ga', [])"
    unfolding demo_evolve by simp
  have fn: "fitness_fn demo_ga = Some demo_fitness" by (simp add: demo_ga_def)
  have e: "?e \<in> set (individuals demo_ga)" by (simp add: demo_ga_def)
  have top: "\<forall>g\<in>set (individuals demo_ga).
               fitness g \<le> fitness ?e \<and> (fitness g = fitness ?e \<longrightarrow> g = ?e)"
    by (simp add: demo_ga_def)
  have "individuals ?ga' ! (population_size demo_ga - 1) = ?e"
    using elitism[OF demo_initialized fn demo_evaluated run] e top by blast
  then have "individuals ?ga' ! 1 = ?e" by (simp add: demo_ga_def)
  then show ?thesis using demo_initialized run by blast
qed

subsection \<open>Sizes\<close>

lemma crossover_genome_size:
  "crossover RAND_MAX mother father child gsize rate ds = Inr (c, ds') \<Longrightarrow> genome_size c = gsize"
  by (auto simp: crossover_def split: if_splits sum.splits)

lemma mutate_genome_size:
  "mutate RAND_MAX c rate ds = Inr (c', ds') \<Longrightarrow> genome_size c' = genome_size c"
  by (auto simp: mutate_def split: sum.splits)

lemma breed_result:
  "breed RAND_MAX inds parents gsize rate n nchildren replace children ds = Inr (children', ds') \<Longrightarrow>
   n = 2 * nchildren \<Longrightarrow>
   length children' = length children
   \<and> (\<forall>i<nchildren. children' ! i = children ! i)
   \<and> (\<forall>i. nchildren \<le> i \<and> i < replace \<longrightarrow> i < length children \<and> genome_size (children' ! i) = gsize)"
proof (induction RAND_MAX inds parents gsize rate n nchildren replace children ds
       rule: breed.induct)
  case (1 RAND_MAX inds parents gsize rate n nchildren replace children ds)
  show ?case
  proof (cases "n < replace * 2")
    case False
    then show ?thesis using "1.prems" by (simp add: breed.simps)
  next
    case True
    have guard: "n + 1 < length parents \<and> parents ! n < length inds \<and> parents ! (n + 1) < length inds
            \<and> nchildren < length children"
      using "1.prems"(1) True by (subst (asm) breed.simps) (simp split: if_splits)
    then obtain child ds1 where
      cr: "crossover RAND_MAX (inds ! (parents ! n)) (inds ! (parents ! (n + 1)))
             (children ! nchildren) gsize rate ds = Inr (child, ds1)"
      and rec: "breed RAND_MAX inds parents gsize rate (n + 2) (Suc nchildren) replace
                  (children[nchildren := child]) ds1 = Inr (children', ds')"
      using "1.prems"(1) True
      by (subst (asm) breed.simps) (auto split: sum.splits)
    have n2: "n + 2 = 2 * Suc nchildren" using "1.prems"(2) by simp
    from "1.IH"[OF True guard cr refl rec n2]
    have len: "length children' = length children"
      and keep: "\<And>i. i < Suc nchildren \<Longrightarrow> children' ! i = (children[nchildren := child]) ! i"
      and new: "\<And>i. Suc nchildren \<le> i \<Longrightarrow> i < replace \<Longrightarrow>
                  i < length children \<and> genome_size (children' ! i) = gsize"
      by auto
    have a: "\<forall>i<nchildren. children' ! i = children ! i"
      using keep by simp
    have b: "\<forall>i. nchildren \<le> i \<and> i < replace \<longrightarrow>
                i < length children \<and> genome_size (children' ! i) = gsize"
    proof (intro allI impI)
      fix i assume i: "nchildren \<le> i \<and> i < replace"
      show "i < length children \<and> genome_size (children' ! i) = gsize"
      proof (cases "i = nchildren")
        case True
        have "children' ! nchildren = child" using keep[of nchildren] guard by simp
        then show ?thesis using True guard crossover_genome_size[OF cr] by simp
      next
        case False
        then have "Suc nchildren \<le> i" using i by simp
        then show ?thesis using new[of i] i by simp
      qed
    qed
    show ?thesis using len a b by blast
  qed
qed

lemma mutate_children_result:
  "mutate_children RAND_MAX rate n replace children ds = Inr (children', ds') \<Longrightarrow>
   length children' = length children
   \<and> (\<forall>i<length children. genome_size (children' ! i) = genome_size (children ! i))"
proof (induction RAND_MAX rate n replace children ds rule: mutate_children.induct)
  case (1 RAND_MAX rate n replace children ds)
  show ?case
  proof (cases "n < replace")
    case False
    then show ?thesis using "1.prems" by (simp add: mutate_children.simps)
  next
    case True
    have guard: "n < length children"
      using "1.prems" True by (subst (asm) mutate_children.simps) (simp split: if_splits)
    then obtain child ds1 where
      mu: "mutate RAND_MAX (children ! n) rate ds = Inr (child, ds1)"
      and rec: "mutate_children RAND_MAX rate (Suc n) replace (children[n := child]) ds1
                = Inr (children', ds')"
      using "1.prems" True
      by (subst (asm) mutate_children.simps) (auto split: sum.splits)
    from "1.IH"[OF True guard mu refl rec]
    have len: "length children' = length children"
      and sz: "\<And>i. i < length children \<Longrightarrow>
                 genome_size (children' ! i) = genome_size ((children[n := child]) ! i)"
      by auto
    have "\<forall>i<length children. genome_size (children' ! i) = genome_size (children ! i)"
    proof (intro allI impI)
      fix i assume i: "i < length children"
      show "genome_size (children' ! i) = genome_size (children ! i)"
        using sz[OF i] i mutate_genome_size[OF mu] by (cases "i = n") simp_all
    qed
    then show ?thesis using len by blast
  qed
qed

text \<open>
  Claim C9. Let the engine be initialized and let the objective function keep the size
  field and the gene buffer of every individual. When \<open>micro_ga_evolve\<close> returns, the
  engine has the population size it had, the array \<open>individuals\<close> has as many elements as
  before, and every individual has the genome length of the engine, as before the call;
  the engine is initialized again.
\<close>

theorem size_invariant:
  assumes init: "initialized ga"
    and fn: "fitness_fn ga = Some f"
    and shape: "\<forall>g\<in>set (individuals ga).
                  genome_size (f g) = genome_size g \<and> length (genes (f g)) = length (genes g)"
    and run: "snd (micro_ga_evolve RAND_MAX alloc ga ds) = Inr (ga', ds')"
  shows "population_size ga' = population_size ga
     \<and> length (individuals ga') = length (individuals ga)
     \<and> ga_genome_size ga' = ga_genome_size ga
     \<and> (\<forall>g\<in>set (individuals ga').
           genome_size g = ga_genome_size ga \<and> length (genes g) = ga_genome_size ga)
     \<and> initialized ga'"
proof -
  let ?pop = "population_size ga"
  let ?gs = "ga_genome_size ga"
  have len: "length (individuals ga) = ?pop" and pos: "0 < ?pop" and gpos: "0 < ?gs"
    and rdy: "ready ga = 1"
    and wf: "\<forall>g\<in>set (individuals ga). genome_size g = ?gs \<and> length (genes g) = ?gs"
    using init by (simp_all add: initialized_def)
  let ?sorted = "qsort genome_compare (map f (individuals ga))"
  from micro_ga_evolve_Inr[OF run] fn len
  obtain parents ds1 children1 ds2 children2 inds3 where
    br: "breed RAND_MAX ?sorted parents ?gs (crossover_rate ga) 0 0 (?pop - 1)
           (calloc_children alloc ?pop ?gs) ds1 = Inr (children1, ds2)"
    and mu: "mutate_children RAND_MAX (mutation_rate ga) 0 (?pop - 1) children1 ds2
           = Inr (children2, ds')"
    and rep: "replace_individuals 0 (?pop - 1) children2 ?sorted = Inr inds3"
    and ga': "ga' = ga\<lparr>individuals := inds3\<rparr>"
    by auto
  have swf: "\<forall>g\<in>set ?sorted. genome_size g = ?gs \<and> length (genes g) = ?gs"
    using wf shape by (auto simp: qsort_set)
  have slen: "length ?sorted = ?pop" by (simp add: qsort_length len)
  have l3: "length inds3 = ?pop"
    using replace_individuals_result[OF rep] slen by simp
  have c1: "\<forall>i<?pop - 1. i < length children1 \<and> genome_size (children1 ! i) = ?gs"
    using breed_result[OF br] by simp
  have c2: "\<forall>i<?pop - 1. genome_size (children2 ! i) = ?gs"
    using mutate_children_result[OF mu] c1 by simp
  have each: "\<forall>i<length inds3. genome_size (inds3 ! i) = ?gs \<and> length (genes (inds3 ! i)) = ?gs"
  proof (intro allI impI)
    fix i assume "i < length inds3"
    then have i: "i < ?pop" using l3 by simp
    then have si: "?sorted ! i \<in> set ?sorted" using slen by simp
    show "genome_size (inds3 ! i) = ?gs \<and> length (genes (inds3 ! i)) = ?gs"
    proof (cases "i < ?pop - 1")
      case True
      then have "genome_size (inds3 ! i) = genome_size (children2 ! i)
          \<and> length (genes (inds3 ! i)) = length (genes (?sorted ! i))"
        using replace_individuals_result[OF rep] by simp
      then show ?thesis using c2 True swf si by simp
    next
      case False
      then have "inds3 ! i = ?sorted ! i"
        using replace_individuals_result[OF rep] i slen by simp
      then show ?thesis using swf si by simp
    qed
  qed
  then have all: "\<forall>g\<in>set inds3. genome_size g = ?gs \<and> length (genes g) = ?gs"
    by (auto simp: in_set_conv_nth)
  have i': "initialized ga'"
    using ga' l3 all pos gpos rdy fn by (simp add: initialized_def)
  show ?thesis using ga' l3 len all i' by simp
qed

theorem size_invariant_witness:
  "initialized demo_ga
   \<and> (\<exists>ga'. snd (micro_ga_evolve 3 (\<lambda>k. True) demo_ga [0, 3, 2, 1, 0]) = Inr (ga', [])
        \<and> population_size ga' = 2 \<and> length (individuals ga') = 2
        \<and> genome_size (individuals ga' ! 0) = 1 \<and> genome_size (individuals ga' ! 1) = 1
        \<and> initialized ga')"
proof -
  let ?ga' = "demo_ga\<lparr>individuals := [\<lparr>genome_size = 1, genes = [5 / 8], fitness = -1\<rparr>,
                                        \<lparr>genome_size = 1, genes = [3 / 4], fitness = 3\<rparr>]\<rparr>"
  have run: "snd (micro_ga_evolve 3 (\<lambda>k. True) demo_ga [0, 3, 2, 1, 0]) = Inr (?ga', [])"
    unfolding demo_evolve by simp
  have fn: "fitness_fn demo_ga = Some demo_fitness" by (simp add: demo_ga_def)
  have shape: "\<forall>g\<in>set (individuals demo_ga).
      genome_size (demo_fitness g) = genome_size g \<and> length (genes (demo_fitness g)) = length (genes g)"
    by (simp add: demo_fitness_def)
  note si = size_invariant[OF demo_initialized fn shape run]
  have a: "population_size ?ga' = 2 \<and> length (individuals ?ga') = 2"
    using si by (simp add: demo_ga_def)
  have b: "genome_size (individuals ?ga' ! 0) = 1 \<and> genome_size (individuals ?ga' ! 1) = 1"
    using si by (simp add: demo_ga_def)
  have c: "initialized ?ga'"
    using si by blast
  show ?thesis using demo_initialized run a b c by blast
qed


section \<open>Properties of micro_ga_init\<close>

subsection \<open>The genes of one individual\<close>





subsection \<open>The seeding loop\<close>













subsection \<open>Validation and success\<close>

text \<open>A configuration that passes the checks, used in the examples below.\<close>

definition demo_config :: micro_ga_config_t where
  "demo_config = \<lparr>cfg_population_size = 2, cfg_genome_size = 1, cfg_mutation_rate = 0,
                   cfg_crossover_rate = 0, cfg_fitness_thresh = 1 / 2,
                   cfg_fitness_fn = Some demo_fitness, cfg_acceptance_fn = None, cfg_debug = 0\<rparr>"







section \<open>The fitness threshold\<close>

lemma micro_ga_init_thresh:
  assumes "0 \<le> t"
    and "micro_ga_init RAND_MAX alloc old (Some c) ds = Inr (0, Some g, ds')"
  shows "micro_ga_init RAND_MAX alloc old (Some (c\<lparr>cfg_fitness_thresh := t\<rparr>)) ds
           = Inr (0, Some (g\<lparr>fitness_thresh := t\<rparr>), ds')"
  using assms
  by (auto simp: micro_ga_init_def population_init_def Let_def
           split: option.splits sum.splits prod.splits if_splits cong: if_cong)

text \<open>
  Claim C3. \<open>micro_ga_evolve\<close> does not read \<open>fitness_thresh\<close>: an engine that differs from
  \<open>ga\<close> in that field alone, run with the same allocator and the same draws, leaves the
  same trace and ends the same way, and when the step returns, its engine is the one
  \<open>ga\<close> yields with the other threshold written back -- the same individuals in every slot
  -- and the same draws are left. \<open>micro_ga_init\<close> only tests the threshold for its sign:
  when it succeeds on a configuration, it succeeds on the configuration with any other
  non-negative threshold, with the same draws left and an engine that differs in
  \<open>fitness_thresh\<close> alone.
\<close>

theorem fitness_thresh_inert:
  "fst (micro_ga_evolve RAND_MAX alloc (ga\<lparr>fitness_thresh := t\<rparr>) ds)
     = fst (micro_ga_evolve RAND_MAX alloc ga ds)
   \<and> (case snd (micro_ga_evolve RAND_MAX alloc ga ds) of
         Inl e \<Rightarrow> snd (micro_ga_evolve RAND_MAX alloc (ga\<lparr>fitness_thresh := t\<rparr>) ds) = Inl e
       | Inr (ga', ds') \<Rightarrow>
           snd (micro_ga_evolve RAND_MAX alloc (ga\<lparr>fitness_thresh := t\<rparr>) ds)
             = Inr (ga'\<lparr>fitness_thresh := t\<rparr>, ds')
           \<and> individuals (ga'\<lparr>fitness_thresh := t\<rparr>) = individuals ga')
   \<and> (0 \<le> t \<longrightarrow>
        (\<forall>g ds'. micro_ga_init RAND_MAX alloc' old (Some c) ds = Inr (0, Some g, ds') \<longrightarrow>
           micro_ga_init RAND_MAX alloc' old (Some (c\<lparr>cfg_fitness_thresh := t\<rparr>)) ds
             = Inr (0, Some (g\<lparr>fitness_thresh := t\<rparr>), ds')))"
proof -
  have "fst (micro_ga_evolve RAND_MAX alloc (ga\<lparr>fitness_thresh := t\<rparr>) ds)
     = fst (micro_ga_evolve RAND_MAX alloc ga ds)
   \<and> (case snd (micro_ga_evolve RAND_MAX alloc ga ds) of
         Inl e \<Rightarrow> snd (micro_ga_evolve RAND_MAX alloc (ga\<lparr>fitness_thresh := t\<rparr>) ds) = Inl e
       | Inr (ga', ds') \<Rightarrow>
           snd (micro_ga_evolve RAND_MAX alloc (ga\<lparr>fitness_thresh := t\<rparr>) ds)
             = Inr (ga'\<lparr>fitness_thresh := t\<rparr>, ds')
           \<and> individuals (ga'\<lparr>fitness_thresh := t\<rparr>) = individuals ga')"
    by (simp add: micro_ga_evolve_def Let_def split: option.splits sum.splits prod.splits)
  then show ?thesis using micro_ga_init_thresh[of t RAND_MAX alloc' old c ds] by blast
qed

theorem fitness_thresh_inert_witness:
  "snd (micro_ga_evolve 3 (\<lambda>k. True) (demo_ga\<lparr>fitness_thresh := 0\<rparr>) [0, 3, 2, 1, 0])
     = Inr (demo_ga\<lparr>individuals := [\<lparr>genome_size = 1, genes = [5 / 8], fitness = -1\<rparr>,
                                      \<lparr>genome_size = 1, genes = [3 / 4], fitness = 3\<rparr>],
                    fitness_thresh := 0\<rparr>, [])
   \<and> (\<exists>g. micro_ga_init 3 (\<lambda>k. True) (Some demo_ga) (Some demo_config) [3, 1]
             = Inr (0, Some g, [])
          \<and> micro_ga_init 3 (\<lambda>k. True) (Some demo_ga) (Some (demo_config\<lparr>cfg_fitness_thresh := 9\<rparr>)) [3, 1]
             = Inr (0, Some (g\<lparr>fitness_thresh := 9\<rparr>), []))"
proof -
  note t = fitness_thresh_inert[where RAND_MAX = 3 and alloc = "\<lambda>k. True" and ga = demo_ga
      and t = 0 and ds = "[0, 3, 2, 1, 0]"]
  have a: "snd (micro_ga_evolve 3 (\<lambda>k. True) (demo_ga\<lparr>fitness_thresh := 0\<rparr>) [0, 3, 2, 1, 0])
     = Inr (demo_ga\<lparr>individuals := [\<lparr>genome_size = 1, genes = [5 / 8], fitness = -1\<rparr>,
                                      \<lparr>genome_size = 1, genes = [3 / 4], fitness = 3\<rparr>],
                    fitness_thresh := 0\<rparr>, [])"
    using t unfolding demo_evolve by simp
  obtain g where g: "micro_ga_init 3 (\<lambda>k. True) (Some demo_ga) (Some demo_config) [3, 1]
             = Inr (0, Some g, [])"
    by (simp add: micro_ga_init_def demo_config_def population_init_def Let_def upt_rec
        population_init_loop.simps seed_genes.simps)
  have "(0::real) \<le> 9" by simp
  with fitness_thresh_inert[where RAND_MAX = 3 and alloc' = "\<lambda>k. True" and old = "Some demo_ga"
      and c = demo_config and t = 9 and ds = "[3, 1]"] g
  have "micro_ga_init 3 (\<lambda>k. True) (Some demo_ga) (Some (demo_config\<lparr>cfg_fitness_thresh := 9\<rparr>)) [3, 1]
             = Inr (0, Some (g\<lparr>fitness_thresh := 9\<rparr>), [])"
    by blast
  then show ?thesis using a g by blast
qed

section \<open>Calls of the objective function\<close>

fun is_fitness_call :: "event \<Rightarrow> bool" where
  "is_fitness_call (FitnessCall g) = True"
| "is_fitness_call (Stderr s) = False"

lemma filter_fitness_calls: "filter is_fitness_call (map FitnessCall xs) = map FitnessCall xs"
  by (induction xs) simp_all

lemma micro_ga_evolve_trace:
  assumes "ready ga = 1" "fitness_fn ga = Some f" "length (individuals ga) = population_size ga"
  shows "fst (micro_ga_evolve RAND_MAX alloc ga ds) =
           map FitnessCall (individuals ga)
           @ (if (\<not> alloc 0 \<or> \<not> alloc 1 \<or> \<not> alloc 2) \<and> (population_size ga = 0 \<or> alloc 2)
              then [Stderr ''Could not allocate memory''] else [])"
  using assms by (auto simp: micro_ga_evolve_def Let_def evaluate_map)

text \<open>
  Claim C10. On an engine that is ready, has its objective function and its
  \<open>population_size\<close> individuals, a call of \<open>micro_ga_evolve\<close> calls the objective function
  once on each slot, in slot order, whatever the fitness the slot already holds and
  however the call ends; the calls come before the sort: when the call returns, the last
  slot holds the last element of the sorted list of the evaluated individuals.
\<close>

theorem objective_called_once_per_slot:
  assumes "ready ga = 1" "fitness_fn ga = Some f" "length (individuals ga) = population_size ga"
  shows "filter is_fitness_call (fst (micro_ga_evolve RAND_MAX alloc ga ds))
           = map FitnessCall (individuals ga)
     \<and> length (filter is_fitness_call (fst (micro_ga_evolve RAND_MAX alloc ga ds)))
           = population_size ga
     \<and> (\<forall>ga' ds'. snd (micro_ga_evolve RAND_MAX alloc ga ds) = Inr (ga', ds') \<longrightarrow>
           individuals ga' ! (population_size ga - 1)
             = last (qsort genome_compare (map f (individuals ga))))"
proof -
  have tr: "filter is_fitness_call (fst (micro_ga_evolve RAND_MAX alloc ga ds))
           = map FitnessCall (individuals ga)"
    using micro_ga_evolve_trace[OF assms, of RAND_MAX alloc ds]
    by (simp add: filter_fitness_calls)
  have n: "length (filter is_fitness_call (fst (micro_ga_evolve RAND_MAX alloc ga ds)))
           = population_size ga"
    using tr assms(3) by simp
  have srt: "individuals ga' ! (population_size ga - 1)
             = last (qsort genome_compare (map f (individuals ga)))"
    if run: "snd (micro_ga_evolve RAND_MAX alloc ga ds) = Inr (ga', ds')" for ga' ds'
  proof -
    let ?pop = "population_size ga"
    let ?sorted = "qsort genome_compare (map f (individuals ga))"
    from micro_ga_evolve_Inr[OF run] assms
    obtain children2 inds3 where
      pos: "0 < ?pop"
      and rep: "replace_individuals 0 (?pop - 1) children2 ?sorted = Inr inds3"
      and ga': "ga' = ga\<lparr>individuals := inds3\<rparr>"
      by auto
    have slen: "length ?sorted = ?pop" using assms(3) by (simp add: qsort_length)
    have ne: "?sorted \<noteq> []" using slen pos by auto
    have "inds3 ! (?pop - 1) = ?sorted ! (?pop - 1)"
      using replace_individuals_result[OF rep] slen pos by simp
    also have "\<dots> = last ?sorted"
      using slen ne by (simp add: last_conv_nth)
    finally show ?thesis using ga' by simp
  qed
  show ?thesis using tr n srt by blast
qed

theorem objective_called_once_per_slot_witness:
  "filter is_fitness_call
     (fst (micro_ga_evolve 3 (\<lambda>k. True)
             (demo_ga\<lparr>individuals := [\<lparr>genome_size = 1, genes = [5 / 8], fitness = -1\<rparr>,
                                       \<lparr>genome_size = 1, genes = [3 / 4], fitness = 3\<rparr>]\<rparr>)
             [0, 3, 2, 1, 0]))
   = [FitnessCall \<lparr>genome_size = 1, genes = [5 / 8], fitness = -1\<rparr>,
      FitnessCall \<lparr>genome_size = 1, genes = [3 / 4], fitness = 3\<rparr>]
   \<and> snd (micro_ga_evolve 3 (\<lambda>k. True)
             (demo_ga\<lparr>individuals := [\<lparr>genome_size = 1, genes = [5 / 8], fitness = -1\<rparr>,
                                       \<lparr>genome_size = 1, genes = [3 / 4], fitness = 3\<rparr>]\<rparr>)
             [0, 3, 2, 1, 0])
     = Inr (demo_ga\<lparr>individuals := [\<lparr>genome_size = 1, genes = [23 / 32], fitness = -1\<rparr>,
                                      \<lparr>genome_size = 1, genes = [3 / 4], fitness = 3\<rparr>]\<rparr>, [])"
proof -
  let ?ga = "demo_ga\<lparr>individuals := [\<lparr>genome_size = 1, genes = [5 / 8], fitness = -1\<rparr>,
                                       \<lparr>genome_size = 1, genes = [3 / 4], fitness = 3\<rparr>]\<rparr>"
  have "ready ?ga = 1" "fitness_fn ?ga = Some demo_fitness"
    "length (individuals ?ga) = population_size ?ga"
    by (simp_all add: demo_ga_def)
  from objective_called_once_per_slot[OF this, of 3 "\<lambda>k. True" "[0, 3, 2, 1, 0]"]
  have a: "filter is_fitness_call (fst (micro_ga_evolve 3 (\<lambda>k. True) ?ga [0, 3, 2, 1, 0]))
           = map FitnessCall (individuals ?ga)"
    by blast
  have b: "snd (micro_ga_evolve 3 (\<lambda>k. True) ?ga [0, 3, 2, 1, 0])
     = Inr (demo_ga\<lparr>individuals := [\<lparr>genome_size = 1, genes = [23 / 32], fitness = -1\<rparr>,
                                      \<lparr>genome_size = 1, genes = [3 / 4], fitness = 3\<rparr>]\<rparr>, [])"
    unfolding demo_evolve_again by simp
  show ?thesis using a b by simp
qed

section \<open>Failure of the scratch allocations\<close>

text \<open>
  Claim C2, on the code as it is. For a ready engine of at least one individual, when
  \<^verbatim>\<open>calloc\<close> fails for \<^verbatim>\<open>prob\<close>, \<^verbatim>\<open>parents\<close> or \<^verbatim>\<open>children\<close>, the objective function has been
  called on every slot before the allocation. A failure for \<^verbatim>\<open>children\<close> ends in a write
  through the null pointer before anything is reported. Otherwise the message is
  written and the step goes on: it sorts the population and then writes through the
  null \<^verbatim>\<open>prob\<close>, or, with \<^verbatim>\<open>parents\<close> null, reads through it in the selection loop; with one
  individual the selection loop is not entered and the call returns the evaluated
  population.
\<close>

theorem evolve_allocation_failure:
  assumes "ready ga = 1" "fitness_fn ga = Some f"
    and "length (individuals ga) = population_size ga" "0 < population_size ga"
    and "\<not> alloc 0 \<or> \<not> alloc 1 \<or> \<not> alloc 2"
  shows "(\<not> alloc 2 \<longrightarrow>
            micro_ga_evolve RAND_MAX alloc ga ds
              = (map FitnessCall (individuals ga), Inl MemoryFault))
     \<and> (alloc 2 \<and> \<not> alloc 0 \<longrightarrow>
            micro_ga_evolve RAND_MAX alloc ga ds
              = (map FitnessCall (individuals ga) @ [Stderr ''Could not allocate memory''],
                 Inl MemoryFault))
     \<and> (alloc 2 \<and> alloc 0 \<and> 1 < population_size ga \<and> 2 \<le> length ds \<longrightarrow>
            micro_ga_evolve RAND_MAX alloc ga ds
              = (map FitnessCall (individuals ga) @ [Stderr ''Could not allocate memory''],
                 Inl MemoryFault))
     \<and> (alloc 2 \<and> alloc 0 \<and> population_size ga = 1 \<longrightarrow>
            micro_ga_evolve RAND_MAX alloc ga ds
              = (map FitnessCall (individuals ga) @ [Stderr ''Could not allocate memory''],
                 Inr (ga\<lparr>individuals := map f (individuals ga)\<rparr>, ds)))"
proof (intro conjI impI)
  assume "\<not> alloc 2"
  then show "micro_ga_evolve RAND_MAX alloc ga ds
              = (map FitnessCall (individuals ga), Inl MemoryFault)"
    using assms by (simp add: micro_ga_evolve_def Let_def evaluate_map)
next
  assume "alloc 2 \<and> \<not> alloc 0"
  then show "micro_ga_evolve RAND_MAX alloc ga ds
              = (map FitnessCall (individuals ga) @ [Stderr ''Could not allocate memory''],
                 Inl MemoryFault)"
    using assms by (simp add: micro_ga_evolve_def Let_def evaluate_map)
next
  assume h: "alloc 2 \<and> alloc 0 \<and> 1 < population_size ga \<and> 2 \<le> length ds"
  then have p: "\<not> alloc 1" using assms(5) by blast
  from h obtain d1 d2 rest where ds: "ds = d1 # d2 # rest"
    by (cases ds; cases "tl ds") auto
  have "select_parents RAND_MAX prob (population_size ga - 1) 0 0 [] ds = Inl MemoryFault" for prob
    using h ds by (subst select_parents.simps) simp
  then show "micro_ga_evolve RAND_MAX alloc ga ds
              = (map FitnessCall (individuals ga) @ [Stderr ''Could not allocate memory''],
                 Inl MemoryFault)"
    using assms h p by (simp add: micro_ga_evolve_def Let_def evaluate_map)
next
  assume h: "alloc 2 \<and> alloc 0 \<and> population_size ga = 1"
  then have p: "\<not> alloc 1" using assms(5) by blast
  obtain g where g: "individuals ga = [g]"
    using assms(3) h by (cases "individuals ga") auto
  show "micro_ga_evolve RAND_MAX alloc ga ds
              = (map FitnessCall (individuals ga) @ [Stderr ''Could not allocate memory''],
                 Inr (ga\<lparr>individuals := map f (individuals ga)\<rparr>, ds))"
    using assms h p g
    by (simp add: micro_ga_evolve_def Let_def evaluate_map select_parents.simps breed.simps
        mutate_children.simps replace_individuals.simps)
qed

theorem evolve_allocation_failure_witness:
  "micro_ga_evolve 3 (\<lambda>k. k \<noteq> 1)
     (demo_ga\<lparr>population_size := 1,
              individuals := [\<lparr>genome_size = 1, genes = [3 / 4], fitness = -1\<rparr>]\<rparr>) [0, 3]
   = ([FitnessCall \<lparr>genome_size = 1, genes = [3 / 4], fitness = -1\<rparr>,
       Stderr ''Could not allocate memory''],
      Inr (demo_ga\<lparr>population_size := 1,
                    individuals := [\<lparr>genome_size = 1, genes = [3 / 4], fitness = 3\<rparr>]\<rparr>, [0, 3]))"
proof -
  let ?ga = "demo_ga\<lparr>population_size := 1,
              individuals := [\<lparr>genome_size = 1, genes = [3 / 4], fitness = -1\<rparr>]\<rparr>"
  have "ready ?ga = 1" "fitness_fn ?ga = Some demo_fitness"
    "length (individuals ?ga) = population_size ?ga" "0 < population_size ?ga"
    "\<not> (0::nat) \<noteq> 1 \<or> \<not> (1::nat) \<noteq> 1 \<or> \<not> (2::nat) \<noteq> 1"
    by (simp_all add: demo_ga_def)
  from evolve_allocation_failure[of ?ga demo_fitness "\<lambda>k. k \<noteq> 1" 3 "[0, 3]", OF this]
  show ?thesis by (simp add: demo_ga_def demo_fitness_def)
qed

section \<open>Misuse\<close>

text \<open>
  Claim C8, on the code as it is. \<open>micro_ga_evolve\<close> on an engine whose ready flag is not 1
  fails its first assertion, before any other effect. \<open>micro_ga_sort\<close> has no assertion:
  whatever the ready flag, it sorts when the array has \<open>population_size\<close> elements and
  reads past the array otherwise.
\<close>

theorem misuse_detection:
  "(ready ga \<noteq> 1 \<longrightarrow> micro_ga_evolve RAND_MAX alloc ga ds = ([], Inl AssertionFailure))
   \<and> micro_ga_sort ga \<noteq> Inl AssertionFailure
   \<and> (population_size ga \<le> length (individuals ga) \<longrightarrow>
        micro_ga_sort ga
          = Inr (ga\<lparr>individuals :=
                     qsort genome_compare (take (population_size ga) (individuals ga))
                     @ drop (population_size ga) (individuals ga)\<rparr>))
   \<and> (length (individuals ga) < population_size ga \<longrightarrow> micro_ga_sort ga = Inl MemoryFault)"
  by (simp add: micro_ga_evolve_def micro_ga_sort_def)

theorem misuse_detection_witness:
  "micro_ga_evolve 3 (\<lambda>k. True) (demo_ga\<lparr>ready := 0\<rparr>) [0, 3, 2, 1, 0] = ([], Inl AssertionFailure)
   \<and> micro_ga_sort (demo_ga\<lparr>ready := 0\<rparr>)
       = Inr (demo_ga\<lparr>ready := 0,
                      individuals := [\<lparr>genome_size = 1, genes = [1 / 4], fitness = 1\<rparr>,
                                      \<lparr>genome_size = 1, genes = [3 / 4], fitness = 3\<rparr>]\<rparr>)
   \<and> micro_ga_sort (demo_ga\<lparr>ready := 0, individuals := []\<rparr>) = Inl MemoryFault"
proof -
  have a: "micro_ga_evolve 3 (\<lambda>k. True) (demo_ga\<lparr>ready := 0\<rparr>) [0, 3, 2, 1, 0]
             = ([], Inl AssertionFailure)"
    using misuse_detection[of "demo_ga\<lparr>ready := 0\<rparr>" 3 "\<lambda>k. True" "[0, 3, 2, 1, 0]"] by simp
  have b: "micro_ga_sort (demo_ga\<lparr>ready := 0\<rparr>)
       = Inr (demo_ga\<lparr>ready := 0,
                      individuals := [\<lparr>genome_size = 1, genes = [1 / 4], fitness = 1\<rparr>,
                                      \<lparr>genome_size = 1, genes = [3 / 4], fitness = 3\<rparr>]\<rparr>)"
    using misuse_detection[of "demo_ga\<lparr>ready := 0\<rparr>" 3 "\<lambda>k. True" "[]"]
    by (simp add: demo_ga_def genome_compare_def)
  have c: "micro_ga_sort (demo_ga\<lparr>ready := 0, individuals := []\<rparr>) = Inl MemoryFault"
    using misuse_detection[of "demo_ga\<lparr>ready := 0, individuals := []\<rparr>" 3 "\<lambda>k. True" "[]"]
    by (simp add: demo_ga_def)
  show ?thesis using a b c by blast
qed

section \<open>The generation step returns\<close>

text \<open>
  The selection loop is the one loop of \<open>micro_ga_evolve\<close> without a bound. The lemmas of
  this section show that on an initialized engine, with every allocation succeeding,
  nothing else keeps the step from returning: once the selection loop has ended, four
  draws per gene and child are enough for breeding and mutation, and no access leaves
  its buffer.
\<close>

lemma roulette_bound: "roulette ps x r = Some y \<Longrightarrow> y < x + length ps"
  by (induction ps arbitrary: x) (fastforce split: if_splits)+

lemma list_update_bound:
  "\<forall>i<length xs. xs ! i < B \<Longrightarrow> v < B \<Longrightarrow> \<forall>i<length (xs[k := v]). (xs[k := v]) ! i < (B::nat)"
  by (cases "k < length xs") (auto simp: nth_list_update)

lemma select_parents_result:
  "select_parents RAND_MAX prob replace n pcount parents ds = Inr (parents', ds') \<Longrightarrow>
   \<forall>i<length parents. parents ! i < B \<Longrightarrow> length prob \<le> B \<Longrightarrow>
   length parents' = length parents \<and> (\<forall>i<length parents'. parents' ! i < B)"
proof (induction RAND_MAX prob replace n pcount parents ds rule: select_parents.induct)
  case (1 RAND_MAX prob replace n pcount parents ds)
  show ?case
  proof (cases "n < replace")
    case False
    then show ?thesis using "1.prems" by (simp add: select_parents.simps)
  next
    case True
    obtain d1 d2 rest where ds: "ds = d1 # d2 # rest"
      using "1.prems"(1) True
      by (subst (asm) select_parents.simps) (auto split: list.splits)
    obtain r0 where ds0: "ds = d1 # r0" "r0 = d2 # rest" using ds by simp
    have guard: "Suc pcount < length parents"
      using "1.prems"(1) True ds by (subst (asm) select_parents.simps) (simp split: if_splits)
    let ?p1 = "(case roulette prob 0 (uniform_double RAND_MAX d1) of
                  Some x \<Rightarrow> parents[pcount := x] | None \<Rightarrow> parents)"
    let ?p2 = "(case roulette prob 0 (uniform_double RAND_MAX d2) of
                  Some x \<Rightarrow> ?p1[Suc pcount := x] | None \<Rightarrow> ?p1)"
    have b1: "length ?p1 = length parents \<and> (\<forall>i<length ?p1. ?p1 ! i < B)"
    proof (cases "roulette prob 0 (uniform_double RAND_MAX d1)")
      case None
      then show ?thesis using "1.prems"(2) by simp
    next
      case (Some x)
      then have "x < B" using roulette_bound[OF Some] "1.prems"(3) by simp
      then show ?thesis using Some list_update_bound[OF "1.prems"(2), of x pcount] by simp
    qed
    have b2: "length ?p2 = length parents \<and> (\<forall>i<length ?p2. ?p2 ! i < B)"
    proof (cases "roulette prob 0 (uniform_double RAND_MAX d2)")
      case None
      then show ?thesis using b1 by simp
    next
      case (Some x)
      then have "x < B" using roulette_bound[OF Some] "1.prems"(3) by simp
      then show ?thesis using Some b1 list_update_bound[of ?p1 B x "Suc pcount"] by simp
    qed
    consider (found) "?p2 ! pcount \<noteq> ?p2 ! Suc pcount"
        "select_parents RAND_MAX prob replace (Suc n) (pcount + 2) ?p2 rest = Inr (parents', ds')"
      | (again) "\<not> ?p2 ! pcount \<noteq> ?p2 ! Suc pcount"
        "select_parents RAND_MAX prob replace n pcount ?p2 rest = Inr (parents', ds')"
      using "1.prems"(1) True ds guard
      by (subst (asm) select_parents.simps) (simp add: Let_def split: if_splits)
    then show ?thesis
    proof cases
      case found
      from "1.IH"(1)[OF True ds0 guard refl refl found(1) found(2) _ "1.prems"(3)] b2
      show ?thesis by simp
    next
      case again
      from "1.IH"(2)[OF True ds0 guard refl refl again(1) again(2) _ "1.prems"(3)] b2
      show ?thesis by simp
    qed
  qed
qed


lemma crossover_total:
  assumes "0 < gsize" "gsize \<le> length (genes mother)" "gsize \<le> length (genes father)"
    "gsize \<le> length (genes child)" "2 * gsize \<le> length ds"
  shows "\<exists>c. crossover RAND_MAX mother father child gsize rate ds = Inr (c, drop (2 * gsize) ds)
           \<and> genome_size c = gsize \<and> length (genes c) = length (genes child)"
proof -
  obtain cg where run: "crossover_loop RAND_MAX rate (genes mother) (genes father) (genes child) 0 gsize ds
        = Inr (cg, drop (2 * gsize) ds)"
    and len: "length cg = length (genes child)"
    using crossover_loop_run[of gsize 0 gsize "genes mother" "genes father" "genes child" ds RAND_MAX rate]
      assms by auto
  show ?thesis using assms(1) run len by (simp add: crossover_def)
qed

lemma breed_total:
  "replace - nchildren = k \<Longrightarrow> n = 2 * nchildren \<Longrightarrow> 2 * replace \<le> length parents \<Longrightarrow>
   \<forall>i<length parents. parents ! i < length inds \<Longrightarrow> replace \<le> length children \<Longrightarrow>
   0 < gsize \<Longrightarrow> \<forall>g\<in>set inds. gsize \<le> length (genes g) \<Longrightarrow>
   \<forall>i<length children. gsize \<le> length (genes (children ! i)) \<Longrightarrow>
   2 * gsize * k \<le> length ds \<Longrightarrow>
   \<exists>children'. breed RAND_MAX inds parents gsize rate n nchildren replace children ds
                  = Inr (children', drop (2 * gsize * k) ds)
      \<and> length children' = length children
      \<and> (\<forall>i<length children. gsize \<le> length (genes (children' ! i)))"
proof (induction k arbitrary: n nchildren children ds)
  case 0
  then show ?case by (simp add: breed.simps)
next
  case (Suc k)
  have nc: "nchildren < replace" using Suc.prems(1) by arith
  then have n: "n < replace * 2" "n + 1 < length parents" "n < length parents"
    using Suc.prems(2,3) by arith+
  have pm: "parents ! n < length inds" and pf: "parents ! (n + 1) < length inds"
    using Suc.prems(4) n by auto
  have cl: "nchildren < length children" using nc Suc.prems(5) by simp
  have "2 * gsize \<le> length ds" using Suc.prems(9) by simp
  then obtain c where
    cr: "crossover RAND_MAX (inds ! (parents ! n)) (inds ! (parents ! (n + 1)))
           (children ! nchildren) gsize rate ds = Inr (c, drop (2 * gsize) ds)"
    and cs: "length (genes c) = length (genes (children ! nchildren))"
    using crossover_total[of gsize "inds ! (parents ! n)" "inds ! (parents ! (n + 1))"
        "children ! nchildren" ds RAND_MAX rate]
      Suc.prems(6,7,8) pm pf cl by auto
  have step: "breed RAND_MAX inds parents gsize rate n nchildren replace children ds
      = breed RAND_MAX inds parents gsize rate (n + 2) (Suc nchildren) replace
          (children[nchildren := c]) (drop (2 * gsize) ds)"
    using n pm pf cl cr by (subst breed.simps) simp
  have inv: "\<forall>i<length (children[nchildren := c]).
               gsize \<le> length (genes ((children[nchildren := c]) ! i))"
    using Suc.prems(8) cs cl by (auto simp: nth_list_update)
  have "\<exists>children'. breed RAND_MAX inds parents gsize rate (n + 2) (Suc nchildren) replace
                  (children[nchildren := c]) (drop (2 * gsize) ds)
                  = Inr (children', drop (2 * gsize * k) (drop (2 * gsize) ds))
      \<and> length children' = length (children[nchildren := c])
      \<and> (\<forall>i<length (children[nchildren := c]). gsize \<le> length (genes (children' ! i)))"
  proof (rule Suc.IH)
    show "replace - Suc nchildren = k" using Suc.prems(1) by simp
    show "n + 2 = 2 * Suc nchildren" using Suc.prems(2) by simp
    show "2 * replace \<le> length parents" by (rule Suc.prems(3))
    show "\<forall>i<length parents. parents ! i < length inds" by (rule Suc.prems(4))
    show "replace \<le> length (children[nchildren := c])" using Suc.prems(5) by simp
    show "0 < gsize" by (rule Suc.prems(6))
    show "\<forall>g\<in>set inds. gsize \<le> length (genes g)" by (rule Suc.prems(7))
    show "\<forall>i<length (children[nchildren := c]).
            gsize \<le> length (genes ((children[nchildren := c]) ! i))" by (rule inv)
    show "2 * gsize * k \<le> length (drop (2 * gsize) ds)" using Suc.prems(9) by simp
  qed
  then show ?case using step by (simp add: add.commute)
qed

lemma mutate_loop_total:
  "gsize - g = k \<Longrightarrow> gsize \<le> length gs \<Longrightarrow> 2 * k \<le> length ds \<Longrightarrow>
   \<exists>gs' ds'. mutate_loop RAND_MAX rate g gsize gs ds = Inr (gs', ds')
      \<and> length gs' = length gs \<and> length ds \<le> length ds' + 2 * k"
proof (induction k arbitrary: g gs ds)
  case 0
  then show ?case by (simp add: mutate_loop.simps)
next
  case (Suc k)
  from Suc.prems obtain r r' rest where ds: "ds = r # r' # rest"
    by (cases ds; cases "tl ds") auto
  have g: "g < gsize" "g < length gs" using Suc.prems by arith+
  show ?case
  proof (cases "uniform_double RAND_MAX r < rate")
    case True
    then have step: "mutate_loop RAND_MAX rate g gsize gs ds
        = mutate_loop RAND_MAX rate (Suc g) gsize (gs[g := to_float (uniform_double RAND_MAX r')]) rest"
      using g ds by (subst mutate_loop.simps) simp
    have "\<exists>gs' ds'. mutate_loop RAND_MAX rate (Suc g) gsize (gs[g := to_float (uniform_double RAND_MAX r')]) rest
              = Inr (gs', ds')
         \<and> length gs' = length (gs[g := to_float (uniform_double RAND_MAX r')]) \<and> length rest \<le> length ds' + 2 * k"
      using Suc.prems ds by (intro Suc.IH) auto
    then show ?thesis using step ds by auto
  next
    case False
    then have step: "mutate_loop RAND_MAX rate g gsize gs ds
        = mutate_loop RAND_MAX rate (Suc g) gsize gs (r' # rest)"
      using g ds by (subst mutate_loop.simps) simp
    have "\<exists>gs' ds'. mutate_loop RAND_MAX rate (Suc g) gsize gs (r' # rest) = Inr (gs', ds')
         \<and> length gs' = length gs \<and> length (r' # rest) \<le> length ds' + 2 * k"
      using Suc.prems ds by (intro Suc.IH) auto
    then show ?thesis using step ds by auto
  qed
qed

lemma mutate_children_total:
  "replace - n = k \<Longrightarrow> replace \<le> length children \<Longrightarrow>
   \<forall>i. n \<le> i \<and> i < replace \<longrightarrow> genome_size (children ! i) \<le> gsize
                         \<and> genome_size (children ! i) \<le> length (genes (children ! i)) \<Longrightarrow>
   2 * gsize * k \<le> length ds \<Longrightarrow>
   \<exists>children' ds'. mutate_children RAND_MAX rate n replace children ds = Inr (children', ds')
      \<and> length children' = length children
      \<and> (\<forall>i<length children. genome_size (children' ! i) = genome_size (children ! i)
             \<and> length (genes (children' ! i)) = length (genes (children ! i)))"
proof (induction k arbitrary: n children ds)
  case 0
  then show ?case by (simp add: mutate_children.simps)
next
  case (Suc k)
  have n: "n < replace" "n < length children" using Suc.prems(1,2) by arith+
  have sz: "genome_size (children ! n) \<le> gsize"
    "genome_size (children ! n) \<le> length (genes (children ! n))"
    using Suc.prems(3) n by auto
  have "2 * (genome_size (children ! n) - 0) \<le> length ds"
    using sz(1) Suc.prems(4) by (simp add: algebra_simps)
  then obtain gs' ds1 where
    ml: "mutate_loop RAND_MAX rate 0 (genome_size (children ! n)) (genes (children ! n)) ds
           = Inr (gs', ds1)"
    and gl: "length gs' = length (genes (children ! n))"
    and dl: "length ds \<le> length ds1 + 2 * (genome_size (children ! n) - 0)"
    using mutate_loop_total[of "genome_size (children ! n)" 0 "genome_size (children ! n) - 0"
        "genes (children ! n)" ds RAND_MAX rate] sz(2)
    by auto
  let ?c = "(children ! n)\<lparr>genes := gs'\<rparr>"
  have mu: "mutate RAND_MAX (children ! n) rate ds = Inr (?c, ds1)"
    using ml by (simp add: mutate_def)
  have step: "mutate_children RAND_MAX rate n replace children ds
      = mutate_children RAND_MAX rate (Suc n) replace (children[n := ?c]) ds1"
    using n mu by (subst mutate_children.simps) simp
  have same: "\<forall>i<length children. genome_size ((children[n := ?c]) ! i) = genome_size (children ! i)
             \<and> length (genes ((children[n := ?c]) ! i)) = length (genes (children ! i))"
    using gl n by (auto simp: nth_list_update)
  have "2 * gsize * Suc k \<le> length ds1 + 2 * gsize"
    using dl sz(1) Suc.prems(4) by (simp add: algebra_simps)
  then have enough: "2 * gsize * k \<le> length ds1" by simp
  have "\<exists>children' ds'. mutate_children RAND_MAX rate (Suc n) replace (children[n := ?c]) ds1
            = Inr (children', ds')
      \<and> length children' = length (children[n := ?c])
      \<and> (\<forall>i<length (children[n := ?c]).
             genome_size (children' ! i) = genome_size ((children[n := ?c]) ! i)
             \<and> length (genes (children' ! i)) = length (genes ((children[n := ?c]) ! i)))"
  proof (rule Suc.IH)
    show "replace - Suc n = k" using Suc.prems(1) by simp
    show "replace \<le> length (children[n := ?c])" using Suc.prems(2) by simp
    show "\<forall>i. Suc n \<le> i \<and> i < replace \<longrightarrow> genome_size ((children[n := ?c]) ! i) \<le> gsize
            \<and> genome_size ((children[n := ?c]) ! i) \<le> length (genes ((children[n := ?c]) ! i))"
      using Suc.prems(3) by (auto simp: nth_list_update)
    show "2 * gsize * k \<le> length ds1" by (rule enough)
  qed
  then show ?case using step same by auto
qed

lemma replace_individuals_total:
  "replace - n = k \<Longrightarrow> replace \<le> length inds \<Longrightarrow> replace \<le> length children \<Longrightarrow>
   \<forall>i<replace. genome_size (children ! i) \<le> length (genes (inds ! i))
                 \<and> genome_size (children ! i) \<le> length (genes (children ! i)) \<Longrightarrow>
   \<exists>inds'. replace_individuals n replace children inds = Inr inds'"
proof (induction k arbitrary: n inds)
  case 0
  then show ?case by (simp add: replace_individuals.simps)
next
  case (Suc k)
  have n: "n < replace" "n < length inds" "n < length children" using Suc.prems(1,2,3) by arith+
  let ?new = "(inds ! n)\<lparr>genome_size := genome_size (children ! n),
                 genes := take (genome_size (children ! n)) (genes (children ! n))
                          @ drop (genome_size (children ! n)) (genes (inds ! n)),
                 fitness := -1\<rparr>"
  have step: "replace_individuals n replace children inds
      = replace_individuals (Suc n) replace children (inds[n := ?new])"
    using n Suc.prems(4) by (subst replace_individuals.simps) simp
  have "\<exists>inds'. replace_individuals (Suc n) replace children (inds[n := ?new]) = Inr inds'"
  proof (rule Suc.IH)
    show "replace - Suc n = k" using Suc.prems(1) by simp
    show "replace \<le> length (inds[n := ?new])" using Suc.prems(2) by simp
    show "replace \<le> length children" by (rule Suc.prems(3))
    show "\<forall>i<replace. genome_size (children ! i) \<le> length (genes ((inds[n := ?new]) ! i))
                 \<and> genome_size (children ! i) \<le> length (genes (children ! i))"
      using Suc.prems(4) n by (auto simp: nth_list_update)
  qed
  then show ?case using step by simp
qed


lemma micro_ga_evolve_returns:
  assumes init: "initialized ga"
    and fn: "fitness_fn ga = Some f"
    and shape: "\<forall>g\<in>set (individuals ga).
                  genome_size (f g) = genome_size g \<and> length (genes (f g)) = length (genes g)"
    and alloc: "\<forall>k. alloc k"
    and sel: "select_parents RAND_MAX
                (cumulative_prob (total_fitness (qsort genome_compare (map f (individuals ga))))
                   (Fin 0) (qsort genome_compare (map f (individuals ga))))
                (population_size ga - 1) 0 0 (replicate (population_size ga * 2) 0) ds
              = Inr (parents, ds1)"
    and draws: "4 * ga_genome_size ga * (population_size ga - 1) \<le> length ds1"
  shows "\<exists>ga' ds'. snd (micro_ga_evolve RAND_MAX alloc ga ds) = Inr (ga', ds')"
proof -
  let ?pop = "population_size ga"
  let ?gs = "ga_genome_size ga"
  let ?sorted = "qsort genome_compare (map f (individuals ga))"
  let ?children = "calloc_children alloc ?pop ?gs"
  have len: "length (individuals ga) = ?pop" and pos: "0 < ?pop" and gpos: "0 < ?gs"
    and rdy: "ready ga = 1"
    and wf: "\<forall>g\<in>set (individuals ga). genome_size g = ?gs \<and> length (genes g) = ?gs"
    using init by (simp_all add: initialized_def)
  have slen: "length ?sorted = ?pop" by (simp add: qsort_length len)
  have swf: "\<forall>g\<in>set ?sorted. genome_size g = ?gs \<and> length (genes g) = ?gs"
    using wf shape by (auto simp: qsort_set)
  have clen: "length ?children = ?pop" by (simp add: calloc_children_def)
  have cbuf: "\<forall>i<length ?children. ?gs \<le> length (genes (?children ! i))"
    using alloc by (simp add: calloc_children_def)
  have plen: "length (cumulative_prob (total_fitness ?sorted) (Fin 0) ?sorted) \<le> ?pop"
    by (simp add: cumulative_prob_length slen)
  have "\<forall>i<length (replicate (?pop * 2) (0::nat)). replicate (?pop * 2) (0::nat) ! i < ?pop"
    using pos by simp
  from select_parents_result[OF sel this plen]
  have pl: "length parents = ?pop * 2" and pb: "\<forall>i<length parents. parents ! i < length ?sorted"
    using slen by simp_all
  have d2: "2 * ?gs * (?pop - 1) \<le> length ds1" using draws by simp
  obtain children1 where
    br: "breed RAND_MAX ?sorted parents ?gs (crossover_rate ga) 0 0 (?pop - 1) ?children ds1
           = Inr (children1, drop (2 * ?gs * (?pop - 1)) ds1)"
    and c1len: "length children1 = ?pop"
    and c1buf: "\<forall>i<?pop. ?gs \<le> length (genes (children1 ! i))"
    using breed_total[of "?pop - 1" 0 "?pop - 1" 0 parents ?sorted ?children ?gs ds1 RAND_MAX
        "crossover_rate ga"] pl pb clen gpos swf cbuf d2
    by auto
  have c1size: "\<forall>i<?pop - 1. genome_size (children1 ! i) = ?gs"
    using breed_result[OF br] by simp
  have d3: "2 * ?gs * (?pop - 1) \<le> length (drop (2 * ?gs * (?pop - 1)) ds1)"
    using draws by simp
  obtain children2 ds3 where
    mu: "mutate_children RAND_MAX (mutation_rate ga) 0 (?pop - 1) children1
           (drop (2 * ?gs * (?pop - 1)) ds1) = Inr (children2, ds3)"
    and c2len: "length children2 = ?pop"
    and c2same: "\<forall>i<?pop. genome_size (children2 ! i) = genome_size (children1 ! i)
                   \<and> length (genes (children2 ! i)) = length (genes (children1 ! i))"
    using mutate_children_total[of "?pop - 1" 0 "?pop - 1" children1 ?gs
        "drop (2 * ?gs * (?pop - 1)) ds1" RAND_MAX "mutation_rate ga"] c1len c1size c1buf d3
    by auto
  have fits: "\<forall>i<?pop - 1. genome_size (children2 ! i) \<le> length (genes (?sorted ! i))
                 \<and> genome_size (children2 ! i) \<le> length (genes (children2 ! i))"
  proof (intro allI impI)
    fix i assume i: "i < ?pop - 1"
    then have ip: "i < ?pop" by simp
    then have "?sorted ! i \<in> set ?sorted" using slen by simp
    then have "length (genes (?sorted ! i)) = ?gs" using swf by blast
    then show "genome_size (children2 ! i) \<le> length (genes (?sorted ! i))
                 \<and> genome_size (children2 ! i) \<le> length (genes (children2 ! i))"
      using c2same c1size c1buf i ip by simp
  qed
  obtain inds3 where
    rp: "replace_individuals 0 (?pop - 1) children2 ?sorted = Inr inds3"
    using replace_individuals_total[of "?pop - 1" 0 "?pop - 1" ?sorted children2] slen c2len fits
    by auto
  have "snd (micro_ga_evolve RAND_MAX alloc ga ds) = Inr (ga\<lparr>individuals := inds3\<rparr>, ds3)"
    using rdy fn len pos alloc sel br mu rp
    by (simp add: micro_ga_evolve_def Let_def evaluate_map)
  then show ?thesis by blast
qed


end
